theory Spec2Isabelle
  imports Complex_Main "HOL-Library.Sublist" "HOL-Library.Multiset"
begin

section \<open>MasterOrchestrator (src/orchestrator/master-orchestrator.js)\<close>

text \<open>
  A task as the master orchestrator handles it. \<^verbatim>\<open>type\<close>, \<^verbatim>\<open>requiredCapabilities\<close>,
  \<^verbatim>\<open>retries\<close> and \<^verbatim>\<open>excludeAgents\<close> may be absent (\<^verbatim>\<open>undefined\<close>), which is
  \<open>None\<close>.
\<close>

record m_task =
  mt_name :: string
  mt_type :: "string option"
  mt_requiredCapabilities :: "string list option"
  mt_retries :: "int option"
  mt_excludeAgents :: "string list option"

text \<open>
  An agent object as \<^verbatim>\<open>createAgent\<close> builds it from its configuration entry, with the
  fields that the modelled methods read or write: \<^verbatim>\<open>id\<close>, \<^verbatim>\<open>name\<close>, \<^verbatim>\<open>role\<close>,
  \<^verbatim>\<open>specialization.primary\<close>, \<^verbatim>\<open>protocols.priority\<close>, \<^verbatim>\<open>status\<close> and
  \<^verbatim>\<open>currentTask\<close>. The registry \<^verbatim>\<open>this.agents\<close> is a JavaScript \<^verbatim>\<open>Map\<close> keyed by the
  agent id; it is modelled by the list of its values in insertion order, which is the
  order in which \<^verbatim>\<open>for (const [id, agent] of this.agents)\<close> visits them.
\<close>

record m_agent =
  m_id :: string
  m_name :: string
  m_role :: string
  m_primary :: "string list"
  m_priority :: int
  m_status :: string
  m_currentTask :: "m_task option"

record m_metrics =
  mm_tasksCompleted :: nat
  mm_tasksFailed :: nat
  mm_avgExecutionTime :: real

text \<open>
  The orchestrator: the registry, the task queue and the \<^verbatim>\<open>performanceMetrics\<close> map
  (keyed by agent id).
\<close>

record master =
  m_agents :: "m_agent list"
  m_taskQueue :: "m_task list"
  m_performanceMetrics :: "string \<rightharpoonup> m_metrics"

datatype js_error = TypeError string

text \<open>\<^verbatim>\<open>this.agents.get(agentId)\<close>: the entry stored under the key, or \<^verbatim>\<open>undefined\<close>.\<close>

definition agentsGet :: "m_agent list \<Rightarrow> string \<Rightarrow> m_agent option" where
  "agentsGet registry agentId = find (\<lambda>a. m_id a = agentId) registry"

subsection \<open>Agent selection and assignment\<close>

text \<open>
  \<^verbatim>\<open>s.includes(t)\<close>: \<open>t\<close> occurs in \<open>s\<close> as a contiguous piece. \<^verbatim>\<open>toLowerCase\<close> is
  modelled on the ASCII letters.
\<close>

definition strIncludes :: "string \<Rightarrow> string \<Rightarrow> bool" where
  "strIncludes s t = sublist t s"

definition toLowerChar :: "char \<Rightarrow> char" where
  "toLowerChar c =
     (if (65::nat) \<le> of_char c \<and> (of_char c :: nat) \<le> 90
      then char_of ((of_char c :: nat) + 32) else c)"

definition toLowerCase :: "string \<Rightarrow> string" where
  "toLowerCase s = map toLowerChar s"

text \<open>Lines 139 to 161: the compatibility score of one agent for a task.\<close>

definition agentScore :: "m_task \<Rightarrow> m_agent \<Rightarrow> int" where
  "agentScore task agent =
     (case mt_requiredCapabilities task of
        None \<Rightarrow> 0
      | Some reqs \<Rightarrow>
          int (length (filter (\<lambda>req. list_ex (\<lambda>cap. strIncludes cap req \<or> strIncludes req cap)
                                       (m_primary agent)) reqs)) * 10)
     + (case mt_type task of
          None \<Rightarrow> 0
        | Some ty \<Rightarrow>
            if ty \<noteq> [] \<and> strIncludes (toLowerCase (m_role agent)) (toLowerCase ty)
            then 5 else 0)
     + m_priority agent
     + (if m_status agent = ''idle'' then 3 else 0)"

text \<open>
  \<^verbatim>\<open>selectBestAgent(task)\<close>: the loop keeps the first agent of the highest score above
  0, starting from \<^verbatim>\<open>bestAgent = null\<close> and \<^verbatim>\<open>bestScore = 0\<close>. It reads neither
  \<^verbatim>\<open>task.excludeAgents\<close> nor, beyond the 3 points of the score, the status.
\<close>

definition considerAgent :: "m_task \<Rightarrow> m_agent option \<times> int \<Rightarrow> m_agent \<Rightarrow> m_agent option \<times> int" where
  "considerAgent task best agent =
     (if agentScore task agent > snd best then (Some agent, agentScore task agent) else best)"

definition master_selectBestAgent :: "m_agent list \<Rightarrow> m_task \<Rightarrow> m_agent option" where
  "master_selectBestAgent registry task = fst (foldl (considerAgent task) (None, 0) registry)"

definition updateMAgent :: "string \<Rightarrow> (m_agent \<Rightarrow> m_agent) \<Rightarrow> m_agent list \<Rightarrow> m_agent list" where
  "updateMAgent agentId f registry = map (\<lambda>a. if m_id a = agentId then f a else a) registry"

text \<open>
  \<^verbatim>\<open>assignTask(task)\<close>, up to the start of the worker: the result is the id of the agent
  that took the task, or \<^verbatim>\<open>null\<close>.
\<close>

definition assignTask :: "master \<Rightarrow> m_task \<Rightarrow> string option \<times> master" where
  "assignTask ms task =
     (case master_selectBestAgent (m_agents ms) task of
        None \<Rightarrow> (None, ms)
      | Some agent \<Rightarrow>
          if m_status agent \<noteq> ''idle''
          then (None, ms\<lparr>m_taskQueue := m_taskQueue ms @ [task]\<rparr>)
          else (Some (m_id agent),
                ms\<lparr>m_agents := updateMAgent (m_id agent)
                       (\<lambda>a. a\<lparr>m_status := ''working'', m_currentTask := Some task\<rparr>)
                       (m_agents ms)\<rparr>))"

subsection \<open>Failure handling\<close>

text \<open>
  \<^verbatim>\<open>handleTaskFailure(agent, task, executionTime)\<close>. \<^verbatim>\<open>task.retries < 3\<close> compares
  \<^verbatim>\<open>undefined\<close> with 3 when the field is absent, which is false. The result is the
  new state of the orchestrator; a missing metrics entry makes \<^verbatim>\<open>metrics.tasksFailed++\<close>
  throw.
\<close>

definition retriesBelowLimit :: "m_task \<Rightarrow> bool" where
  "retriesBelowLimit task = (case mt_retries task of None \<Rightarrow> False | Some r \<Rightarrow> r < 3)"

definition retryCandidate :: "m_agent \<Rightarrow> m_task \<Rightarrow> m_task" where
  "retryCandidate agent task =
     task\<lparr>mt_retries := Some ((case mt_retries task of None \<Rightarrow> 0 | Some r \<Rightarrow> r) + 1),
          mt_excludeAgents :=
            Some ((case mt_excludeAgents task of None \<Rightarrow> [] | Some ex \<Rightarrow> ex) @ [m_id agent])\<rparr>"

definition handleTaskFailure :: "master \<Rightarrow> m_agent \<Rightarrow> m_task \<Rightarrow> js_error + master" where
  "handleTaskFailure ms agent task =
     (case m_performanceMetrics ms (m_id agent) of
        None \<Rightarrow> Inl (TypeError ''Cannot read properties of undefined'')
      | Some metrics \<Rightarrow>
          (let ms1 = ms\<lparr>m_performanceMetrics := (m_performanceMetrics ms)
                          (m_id agent \<mapsto> metrics\<lparr>mm_tasksFailed := mm_tasksFailed metrics + 1\<rparr>)\<rparr>
           in if retriesBelowLimit task
              then Inr (ms1\<lparr>m_taskQueue := retryCandidate agent task # m_taskQueue ms1\<rparr>)
              else Inr ms1))"

text \<open>
  \<^verbatim>\<open>processTaskQueue()\<close>: the list of idle agents is taken once, and every turn of the
  loop drops its first element, so the loop runs at most as many times as there were
  idle agents.
\<close>

fun processLoop :: "master \<Rightarrow> nat \<Rightarrow> master" where
  "processLoop ms 0 = ms"
| "processLoop ms (Suc idle) =
     (case m_taskQueue ms of
        [] \<Rightarrow> ms
      | task # rest \<Rightarrow> processLoop (snd (assignTask (ms\<lparr>m_taskQueue := rest\<rparr>) task)) idle)"

definition processTaskQueue :: "master \<Rightarrow> master" where
  "processTaskQueue ms =
     (if length (m_taskQueue ms) = 0 then ms
      else processLoop ms (length (filter (\<lambda>a. m_status a = ''idle'') (m_agents ms))))"

text \<open>
  The \<^verbatim>\<open>exit\<close> handler of a worker that ended with a code other than 0 (lines 195 to
  210): the failure is handled, the agent is idle again, and the queue is processed.
\<close>

definition workerFailed :: "master \<Rightarrow> m_agent \<Rightarrow> m_task \<Rightarrow> js_error + master" where
  "workerFailed ms agent task =
     (case handleTaskFailure ms agent task of
        Inl err \<Rightarrow> Inl err
      | Inr ms1 \<Rightarrow>
          Inr (processTaskQueue
                 (ms1\<lparr>m_agents := updateMAgent (m_id agent)
                         (\<lambda>a. a\<lparr>m_status := ''idle'', m_currentTask := None\<rparr>) (m_agents ms1)\<rparr>)))"

subsection \<open>Conflict resolution\<close>

text \<open>
  Line 341: \<^verbatim>\<open>agent.protocols.priority > 7 ? 'ours' : 'theirs'\<close>. The threshold is the
  literal 7 of the source.
\<close>

definition conflictThreshold :: int where
  "conflictThreshold = 7"

definition conflictStrategy :: "int \<Rightarrow> string" where
  "conflictStrategy priority = (if priority > conflictThreshold then ''ours'' else ''theirs'')"

text \<open>
  \<^verbatim>\<open>resolveConflict(agentId)\<close>. The lookup and the choice of the strategy stand before the
  \<^verbatim>\<open>try\<close> block, so a missing agent makes the property access throw a
  \<^verbatim>\<open>TypeError\<close>. Otherwise the method hands the pair (agent id, strategy) to
  \<^verbatim>\<open>gitManager.resolveConflicts\<close>; that call is the result of the model.
\<close>

definition resolveConflict :: "m_agent list \<Rightarrow> string \<Rightarrow> js_error + (string \<times> string)" where
  "resolveConflict registry agentId =
     (case agentsGet registry agentId of
        None \<Rightarrow> Inl (TypeError ''Cannot read properties of undefined'')
      | Some agent \<Rightarrow> Inr (agentId, conflictStrategy (m_priority agent)))"

section \<open>OrchestratorController (src/agents/orchestrator_controller.js)\<close>

subsection \<open>JavaScript numbers\<close>

text \<open>
  A JavaScript number is an IEEE 754 double. A multiplication, an addition or a division
  of doubles yields the exact result rounded to a double. In the model a number is a
  real number, and the rounding is a parameter: a function that the modelled methods
  apply to the exact result of each such operation. What is proved for every such
  function holds for the rounding of the doubles. The counters and the measured times
  are integers far below \<open>2\<^sup>5\<^sup>3\<close>, which are doubles as they stand; infinities and
  \<^verbatim>\<open>NaN\<close> do not arise from them and are not modelled.
\<close>

type_synonym rounding = "real \<Rightarrow> real"

subsection \<open>JavaScript sets\<close>

text \<open>
  A JavaScript \<^verbatim>\<open>Set\<close> of strings keeps its members once each, in insertion order. It
  is modelled by the list of its members in that order; \<^verbatim>\<open>size\<close> is the length of
  the list.
\<close>

definition setHas :: "string list \<Rightarrow> string \<Rightarrow> bool" where
  "setHas s x = (x \<in> set s)"

definition setAdd :: "string list \<Rightarrow> string \<Rightarrow> string list" where
  "setAdd s x = (if setHas s x then s else s @ [x])"

definition setDelete :: "string list \<Rightarrow> string \<Rightarrow> string list" where
  "setDelete s x = removeAll x s"

subsection \<open>Tasks and the execution plan\<close>

text \<open>
  The result object of \<^verbatim>\<open>simulateTaskExecution\<close> (the \<^verbatim>\<open>data\<close> field, a copy of the
  opaque \<^verbatim>\<open>task.params\<close>, is left out).
\<close>

record task_result =
  r_success :: bool
  r_agent :: string
  r_message :: string

text \<open>
  A task object. \<^verbatim>\<open>id\<close> and \<^verbatim>\<open>requiredCapabilities\<close> may be absent
  (\<^verbatim>\<open>undefined\<close>), which is \<open>None\<close>. The ISO time stamps \<^verbatim>\<open>created\<close>,
  \<^verbatim>\<open>startTime\<close> and \<^verbatim>\<open>endTime\<close> are not modelled.
\<close>

record task =
  t_id :: "string option"
  t_name :: string
  t_requiredCapabilities :: "string list option"
  t_status :: string
  t_executionTime :: "nat option"
  t_result :: "task_result option"
  t_error :: "string option"

text \<open>\<^verbatim>\<open>task.id || task.name\<close>: an absent or empty id is falsy.\<close>

definition taskKey :: "task \<Rightarrow> string" where
  "taskKey t = (case t_id t of None \<Rightarrow> t_name t | Some i \<Rightarrow> if i = [] then t_name t else i)"

text \<open>
  \<^verbatim>\<open>dependencies\<close> and \<^verbatim>\<open>priority\<close> are plain objects used as dictionaries from task
  ids to arrays of task ids and to numbers (the defaults are \<^verbatim>\<open>{}\<close>). A plain object
  inherits the members of \<^verbatim>\<open>Object.prototype\<close>, so \<^verbatim>\<open>obj[key]\<close> is the own entry
  of the key where there is one, the inherited member where the key is one of the names
  below (a function, or for \<^verbatim>\<open>__proto__\<close> the prototype object), and
  \<^verbatim>\<open>undefined\<close> otherwise. The own entries are the map of the model.
\<close>

definition objectPrototypeNames :: "string list" where
  "objectPrototypeNames =
     [''constructor'', ''__defineGetter__'', ''__defineSetter__'', ''hasOwnProperty'',
      ''__lookupGetter__'', ''__lookupSetter__'', ''isPrototypeOf'', ''propertyIsEnumerable'',
      ''toString'', ''valueOf'', ''__proto__'', ''toLocaleString'']"

text \<open>
  The value of \<^verbatim>\<open>obj[key] || fallback\<close>: a value of the kind the dictionary holds, or
  an inherited member of \<^verbatim>\<open>Object.prototype\<close>, which is truthy and so is not replaced
  by the fallback.
\<close>

datatype 'a lookup = Found 'a | Inherited

text \<open>
  \<^verbatim>\<open>dependencies[taskId] || []\<close> (an array is truthy also when it is empty) and
  \<^verbatim>\<open>priority[id] || 0\<close>. Priorities are taken to be integers; the comparator of the
  sort only uses the sign of their difference.
\<close>

definition depsOf :: "(string \<rightharpoonup> string list) \<Rightarrow> string \<Rightarrow> string list lookup" where
  "depsOf dependencies taskId =
     (case dependencies taskId of
        Some ds \<Rightarrow> Found ds
      | None \<Rightarrow> if taskId \<in> set objectPrototypeNames then Inherited else Found [])"

definition priorityOf :: "(string \<rightharpoonup> int) \<Rightarrow> string \<Rightarrow> int lookup" where
  "priorityOf priority taskId =
     (case priority taskId of
        Some p \<Rightarrow> Found p
      | None \<Rightarrow> if taskId \<in> set objectPrototypeNames then Inherited else Found 0)"

text \<open>
  The \<^verbatim>\<open>for (const task of tasks)\<close> scan of one iteration (lines 251 to 261), threading
  the phase under construction and the \<^verbatim>\<open>inProgress\<close> set. When \<^verbatim>\<open>deps\<close> is an
  inherited member, it has no method \<^verbatim>\<open>every\<close>, and the call of line 257 throws a
  \<^verbatim>\<open>TypeError\<close>, which nothing catches.
\<close>

fun scanTasks :: "(string \<rightharpoonup> string list) \<Rightarrow> string list \<Rightarrow> task list
    \<Rightarrow> task list \<times> string list \<Rightarrow> js_error + task list \<times> string list" where
  "scanTasks dependencies completed [] (phase, inProgress) = Inr (phase, inProgress)"
| "scanTasks dependencies completed (task # rest) (phase, inProgress) =
     (let taskId = taskKey task in
      if setHas completed taskId \<or> setHas inProgress taskId
      then scanTasks dependencies completed rest (phase, inProgress)
      else (case depsOf dependencies taskId of
              Inherited \<Rightarrow> Inl (TypeError ''deps.every is not a function'')
            | Found deps \<Rightarrow>
                if list_all (\<lambda>d. setHas completed d) deps
                then scanTasks dependencies completed rest
                       (phase @ [task], setAdd inProgress taskId)
                else scanTasks dependencies completed rest (phase, inProgress)))"

text \<open>
  The comparator \<^verbatim>\<open>(a, b) => (priority[b.id || b.name] || 0) - (priority[a.id || a.name] || 0)\<close>.
  The difference is \<^verbatim>\<open>NaN\<close>, here \<open>None\<close>, when one of the two operands is an
  inherited member.
\<close>

definition comparePriority :: "(string \<rightharpoonup> int) \<Rightarrow> task \<Rightarrow> task \<Rightarrow> int option" where
  "comparePriority priority a b =
     (case (priorityOf priority (taskKey b), priorityOf priority (taskKey a)) of
        (Found pb, Found pa) \<Rightarrow> Some (pb - pa)
      | _ \<Rightarrow> None)"

text \<open>
  \<^verbatim>\<open>Array.prototype.sort(comparefn)\<close>. The standard (ECMAScript 2019) reads a
  \<^verbatim>\<open>NaN\<close> from the comparator as 0. For a consistent comparator it fixes the
  result: \<open>x\<close> stands before \<open>y\<close> when the comparator is negative on them and after
  when it is positive, and the elements that compare as 0 keep their order. The model
  computes this order by a stable insertion sort. The comparator of the phases is
  consistent when all values compared are numbers, and when all pairs compare as 0. For
  a comparator that is not consistent the standard leaves the order to the
  implementation, and the order of the model is then one of those allowed.
\<close>

definition sortCompare :: "('a \<Rightarrow> 'a \<Rightarrow> int option) \<Rightarrow> 'a \<Rightarrow> 'a \<Rightarrow> int" where
  "sortCompare comparefn x y = (case comparefn x y of None \<Rightarrow> 0 | Some v \<Rightarrow> v)"

fun insertSorted :: "('a \<Rightarrow> 'a \<Rightarrow> int option) \<Rightarrow> 'a \<Rightarrow> 'a list \<Rightarrow> 'a list" where
  "insertSorted comparefn x [] = [x]"
| "insertSorted comparefn x (y # ys) =
     (if sortCompare comparefn x y \<le> 0 then x # y # ys
      else y # insertSorted comparefn x ys)"

definition arraySort :: "('a \<Rightarrow> 'a \<Rightarrow> int option) \<Rightarrow> 'a list \<Rightarrow> 'a list" where
  "arraySort comparefn xs = foldr (insertSorted comparefn) xs []"

definition sortPhase :: "(string \<rightharpoonup> int) \<Rightarrow> task list \<Rightarrow> task list" where
  "sortPhase priority phase = arraySort (comparePriority priority) phase"

definition cycleWarning :: string where
  "cycleWarning = ''Circular dependency detected or unresolvable dependencies''"

text \<open>
  The \<^verbatim>\<open>while (completed.size < tasks.length)\<close> loop. The state is the \<^verbatim>\<open>completed\<close>
  set, the \<^verbatim>\<open>inProgress\<close> set, the phases pushed so far and the warnings logged.
  The \<^verbatim>\<open>break\<close> of line 265 leaves the loop with the state as it stands.
\<close>

type_synonym plan_state = "string list \<times> string list \<times> task list list \<times> string list"

text \<open>
  The body of \<^verbatim>\<open>phase.forEach\<close> (lines 271 to 274) for one task, on each of the two
  sets.
\<close>

definition completeTask :: "task \<Rightarrow> string list \<Rightarrow> string list" where
  "completeTask t completed = setAdd completed (taskKey t)"

definition releaseTask :: "task \<Rightarrow> string list \<Rightarrow> string list" where
  "releaseTask t inProgress = setDelete inProgress (taskKey t)"

lemma length_fold_completeTask_le:
  "length completed \<le> length (fold completeTask ts completed)"
proof (induction ts arbitrary: completed)
  case Nil
  show ?case by simp
next
  case (Cons t ts)
  have "length completed \<le> length (completeTask t completed)"
    by (simp add: completeTask_def setAdd_def)
  also have "\<dots> \<le> length (fold completeTask ts (completeTask t completed))"
    by (rule Cons.IH)
  finally show ?case by simp
qed

lemma length_fold_completeTask_less:
  "t \<in> set ts \<Longrightarrow> taskKey t \<notin> set completed
     \<Longrightarrow> length completed < length (fold completeTask ts completed)"
proof (induction ts arbitrary: completed)
  case Nil
  then show ?case by simp
next
  case (Cons u us)
  show ?case
  proof (cases "taskKey u \<in> set completed")
    case True
    then have same: "completeTask u completed = completed"
      by (simp add: completeTask_def setAdd_def setHas_def)
    from True Cons.prems have "t \<in> set us" by auto
    with Cons.IH [of completed] Cons.prems same show ?thesis by simp
  next
    case False
    then have "length completed < length (completeTask u completed)"
      by (simp add: completeTask_def setAdd_def setHas_def)
    also have "\<dots> \<le> length (fold completeTask us (completeTask u completed))"
      by (rule length_fold_completeTask_le)
    finally show ?thesis by simp
  qed
qed

lemma set_insertSorted: "set (insertSorted comparefn x ys) = insert x (set ys)"
  by (induction ys) auto

lemma set_arraySort: "set (arraySort comparefn xs) = set xs"
  by (induction xs) (simp_all add: arraySort_def set_insertSorted)

lemma set_sortPhase [simp]: "set (sortPhase prio p) = set p"
  by (simp add: sortPhase_def set_arraySort)

text \<open>A task that a scan adds to the phase is not in the \<^verbatim>\<open>completed\<close> set.\<close>

lemma scanTasks_fresh:
  "scanTasks dependencies completed ts (phase, inProgress) = Inr (phase', inProgress')
     \<Longrightarrow> t \<in> set phase' \<Longrightarrow> t \<in> set phase \<or> taskKey t \<notin> set completed"
proof (induction ts arbitrary: phase inProgress)
  case Nil
  then show ?case by simp
next
  case (Cons a ts)
  show ?case
  proof (cases "setHas completed (taskKey a) \<or> setHas inProgress (taskKey a)")
    case True
    with Cons.prems(1) have "scanTasks dependencies completed ts (phase, inProgress)
                               = Inr (phase', inProgress')"
      by (simp add: Let_def)
    from Cons.IH [OF this Cons.prems(2)] show ?thesis .
  next
    case skip: False
    show ?thesis
    proof (cases "depsOf dependencies (taskKey a)")
      case Inherited
      with skip Cons.prems(1) show ?thesis by (simp add: Let_def)
    next
      case (Found deps)
      show ?thesis
      proof (cases "list_all (\<lambda>d. setHas completed d) deps")
        case True
        with skip Found Cons.prems(1)
        have "scanTasks dependencies completed ts (phase @ [a], setAdd inProgress (taskKey a))
                = Inr (phase', inProgress')"
          by (simp add: Let_def)
        from Cons.IH [OF this Cons.prems(2)] skip show ?thesis
          by (auto simp: setHas_def)
      next
        case False
        with skip Found Cons.prems(1)
        have "scanTasks dependencies completed ts (phase, inProgress) = Inr (phase', inProgress')"
          by (simp add: Let_def)
        from Cons.IH [OF this Cons.prems(2)] show ?thesis .
      qed
    qed
  qed
qed

lemma scanTasks_progress:
  assumes "scanTasks dependencies completed tasks ([], inProgress) = Inr (phase, inProgress')"
    and "phase \<noteq> []"
  shows "length completed < length (fold completeTask (sortPhase priority phase) completed)"
proof -
  from assms(2) obtain t where t: "t \<in> set phase" by (cases phase) auto
  with scanTasks_fresh [OF assms(1)] have "taskKey t \<notin> set completed" by auto
  moreover from t have "t \<in> set (sortPhase priority phase)" by simp
  ultimately show ?thesis by (intro length_fold_completeTask_less)
qed

function planLoop :: "task list \<Rightarrow> (string \<rightharpoonup> string list) \<Rightarrow> (string \<rightharpoonup> int)
    \<Rightarrow> plan_state \<Rightarrow> js_error + plan_state" where
  "planLoop tasks dependencies priority (completed, inProgress, phases, logged) =
     (if length completed < length tasks then
        (case scanTasks dependencies completed tasks ([], inProgress) of
           Inl err \<Rightarrow> Inl err
         | Inr (phase, inProgress') \<Rightarrow>
             if phase = [] \<and> length completed < length tasks
             then Inr (completed, inProgress', phases, logged @ [cycleWarning])
             else planLoop tasks dependencies priority
                    (fold completeTask (sortPhase priority phase) completed,
                     fold releaseTask (sortPhase priority phase) inProgress',
                     phases @ [sortPhase priority phase], logged))
      else Inr (completed, inProgress, phases, logged))"
  by pat_completeness auto
termination
proof (relation "measure (\<lambda>(tasks, dependencies, priority, completed, rest).
                    length tasks - length completed)")
  show "wf (measure (\<lambda>(tasks, dependencies, priority, completed, rest).
                    length tasks - length completed))"
    by simp
next
  fix tasks :: "task list" and dependencies :: "string \<rightharpoonup> string list"
    and priority :: "string \<rightharpoonup> int" and completed inProgress logged inProgress' :: "string list"
    and phases :: "task list list" and phase :: "task list"
    and scanned :: "task list \<times> string list"
  assume small: "length completed < length tasks"
    and scan: "scanTasks dependencies completed tasks ([], inProgress) = Inr scanned"
    and pair: "(phase, inProgress') = scanned"
    and go: "\<not> (phase = [] \<and> length completed < length tasks)"
  from scan pair have "scanTasks dependencies completed tasks ([], inProgress)
                         = Inr (phase, inProgress')"
    by simp
  moreover from go small have "phase \<noteq> []" by simp
  ultimately have "length completed
                     < length (fold completeTask (sortPhase priority phase) completed)"
    by (rule scanTasks_progress)
  with small show "((tasks, dependencies, priority,
            fold completeTask (sortPhase priority phase) completed,
            fold releaseTask (sortPhase priority phase) inProgress',
            phases @ [sortPhase priority phase], logged),
           (tasks, dependencies, priority, completed, inProgress, phases, logged))
          \<in> measure (\<lambda>(tasks, dependencies, priority, completed, rest).
                    length tasks - length completed)"
    by simp
qed

text \<open>
  \<^verbatim>\<open>Math.max(...plan.phases.map(p => p.length))\<close> is \<^verbatim>\<open>-Infinity\<close> for no
  arguments.
\<close>

datatype js_max = NegInfinity | Num nat

fun mathMax :: "nat list \<Rightarrow> js_max" where
  "mathMax [] = NegInfinity"
| "mathMax (x # xs) = Num (fold max xs x)"

record plan =
  phases :: "task list list"
  estimatedTime :: nat
  requiredAgents :: js_max

text \<open>
  \<^verbatim>\<open>buildExecutionPlan(tasks, dependencies = {}, priority = {})\<close>. The method has no
  \<^verbatim>\<open>throw\<close> statement and no \<^verbatim>\<open>try\<close>; the \<^verbatim>\<open>TypeError\<close> of the scan leaves it,
  and otherwise it returns the plan. The model returns with the plan the warnings that
  the method logged. (\<^verbatim>\<open>taskMap\<close> is built and never read.)
\<close>

definition buildExecutionPlan :: "task list \<Rightarrow> (string \<rightharpoonup> string list) \<Rightarrow> (string \<rightharpoonup> int)
    \<Rightarrow> js_error + plan \<times> string list" where
  "buildExecutionPlan tasks dependencies priority =
     (case planLoop tasks dependencies priority ([], [], [], []) of
        Inl err \<Rightarrow> Inl err
      | Inr (completed, inProgress, ps, logged) \<Rightarrow>
          Inr (\<lparr>phases = ps,
                estimatedTime = fold (\<lambda>phase acc. acc + 1000) ps 0,
                requiredAgents = mathMax (map length ps)\<rparr>, logged))"

text \<open>
  \<^verbatim>\<open>createTask(name, description, params = {}, requiredCapabilities = [])\<close> builds a
  task without an id and with status \<^verbatim>\<open>'pending'\<close> (and pushes it on the queue, which
  is not modelled here).
\<close>

definition createTask :: "string \<Rightarrow> string list \<Rightarrow> task" where
  "createTask name requiredCapabilities =
     \<lparr>t_id = None, t_name = name, t_requiredCapabilities = Some requiredCapabilities,
      t_status = ''pending'', t_executionTime = None, t_result = None, t_error = None\<rparr>"

subsection \<open>The agent registry and the agent selector\<close>

record performance =
  c_tasksCompleted :: nat
  c_avgExecutionTime :: real
  c_successRate :: real

text \<open>
  An agent object as \<^verbatim>\<open>createDynamicAgent\<close> builds it (the time stamp \<^verbatim>\<open>created\<close> is
  left out). The mean execution time is a JavaScript number.
\<close>

record agent =
  a_id :: string
  a_name :: string
  a_type :: string
  a_capabilities :: "string list"
  a_status :: string
  a_tasks :: "string list"
  a_performance :: performance

text \<open>The argument of \<^verbatim>\<open>createDynamicAgent\<close>; each field may be absent.\<close>

record agent_config =
  cfg_name :: "string option"
  cfg_type :: "string option"
  cfg_capabilities :: "string list option"

text \<open>
  What the payload of a task, \<^verbatim>\<open>simulateTaskExecution\<close>, does is outside the
  controller: whether it resolves or rejects, the time that
  \<^verbatim>\<open>Date.now() - startTime\<close> measures, and the moment at which its timer fires.
  These are parameters of the model, as is the rounding of the arithmetic on doubles.
\<close>

record env =
  payload :: "task \<Rightarrow> agent \<Rightarrow> string + task_result"
  elapsed :: "task \<Rightarrow> nat"
  delay :: "task \<Rightarrow> nat"
  rounded :: rounding

text \<open>
  The events of an execution, by task id: the call of \<^verbatim>\<open>executeTask\<close> and the
  settling of the promise it returned. The log of events is not a field of the source
  object; it records the order of these two kinds of steps.
\<close>

datatype event = Started string | Settled string

text \<open>
  The controller: the \<^verbatim>\<open>agents\<close> map as the list of its values in insertion order
  (the key of an entry is the id of the agent), the two counters and
  \<^verbatim>\<open>config.performance.max_parallel_tasks\<close>. The task queue and the log file are not
  modelled.
\<close>

record controller =
  agents :: "agent list"
  taskIdCounter :: nat
  agentIdCounter :: nat
  max_parallel_tasks :: nat
  events :: "event list"

text \<open>Decimal digits of a number, for the template strings \<^verbatim>\<open>`agent_${n}`\<close>.\<close>

definition digitChar :: "nat \<Rightarrow> char" where
  "digitChar d = ''0123456789'' ! d"

fun showNat :: "nat \<Rightarrow> string" where
  "showNat n = (if n < 10 then [digitChar n] else showNat (n div 10) @ [digitChar (n mod 10)])"

declare showNat.simps [simp del]

text \<open>\<^verbatim>\<open>x || fallback\<close> for a string that may be absent; the empty string is falsy.\<close>

definition orElse :: "string option \<Rightarrow> string \<Rightarrow> string" where
  "orElse v fallback = (case v of None \<Rightarrow> fallback | Some s \<Rightarrow> if s = [] then fallback else s)"

text \<open>\<^verbatim>\<open>this.agents.set(agentId, agent)\<close>: replace the entry of the key, or append.\<close>

definition agentsSet :: "agent list \<Rightarrow> agent \<Rightarrow> agent list" where
  "agentsSet registry agent =
     (if a_id agent \<in> a_id ` set registry
      then map (\<lambda>b. if a_id b = a_id agent then agent else b) registry
      else registry @ [agent])"

text \<open>
  \<^verbatim>\<open>createDynamicAgent(config)\<close>. An array is truthy in JavaScript also when it is
  empty, so \<^verbatim>\<open>config.capabilities || []\<close> replaces an absent field only.
\<close>

definition createDynamicAgent :: "controller \<Rightarrow> agent_config \<Rightarrow> agent \<times> controller" where
  "createDynamicAgent st config =
     (let agentId = ''agent_'' @ showNat (agentIdCounter st);
          agent = \<lparr>a_id = agentId,
                   a_name = orElse (cfg_name config) agentId,
                   a_type = orElse (cfg_type config) ''worker'',
                   a_capabilities = (case cfg_capabilities config of None \<Rightarrow> [] | Some cs \<Rightarrow> cs),
                   a_status = ''idle'',
                   a_tasks = [],
                   a_performance = \<lparr>c_tasksCompleted = 0, c_avgExecutionTime = 0,
                                     c_successRate = 100\<rparr>\<rparr>
      in (agent, st\<lparr>agents := agentsSet (agents st) agent,
                     agentIdCounter := agentIdCounter st + 1\<rparr>))"

text \<open>\<^verbatim>\<open>task.requiredCapabilities || ['general']\<close>.\<close>

definition capabilitiesOrGeneral :: "task \<Rightarrow> string list" where
  "capabilitiesOrGeneral task =
     (case t_requiredCapabilities task of None \<Rightarrow> [''general''] | Some caps \<Rightarrow> caps)"

text \<open>The filter of lines 176 to 179.\<close>

definition isCompatible :: "task \<Rightarrow> agent \<Rightarrow> bool" where
  "isCompatible task agent =
     (case t_requiredCapabilities task of
        None \<Rightarrow> True
      | Some caps \<Rightarrow> list_all (\<lambda>cap. cap \<in> set (a_capabilities agent)) caps)"

text \<open>
  The callback of \<^verbatim>\<open>reduce\<close> (lines 189 to 192). \<^verbatim>\<open>reduce\<close> is called without an
  initial value on a non-empty array, so \<^verbatim>\<open>best\<close> starts as the first element and is
  never falsy.
\<close>

definition fasterAgent :: "agent \<Rightarrow> agent \<Rightarrow> agent" where
  "fasterAgent best agent =
     (if c_avgExecutionTime (a_performance agent) < c_avgExecutionTime (a_performance best)
      then agent else best)"

text \<open>
  \<^verbatim>\<open>selectBestAgent(task)\<close>. The result is an agent object on every path; the model
  returns it as \<open>Some\<close>, so that the test \<^verbatim>\<open>if (bestAgent)\<close> of the caller keeps its
  two branches.
\<close>

definition selectBestAgent :: "controller \<Rightarrow> task \<Rightarrow> agent option \<times> controller" where
  "selectBestAgent st task =
     (let availableAgents = filter (\<lambda>a. a_status a = ''idle'') (agents st) in
      if length availableAgents = 0 then
        (case createDynamicAgent st
                \<lparr>cfg_name = Some (''Worker-'' @ showNat (agentIdCounter st)),
                 cfg_type = Some ''worker'',
                 cfg_capabilities = Some (capabilitiesOrGeneral task)\<rparr> of
           (newAgent, st') \<Rightarrow> (Some newAgent, st'))
      else
        (case filter (isCompatible task) availableAgents of
           [] \<Rightarrow>
             (case createDynamicAgent st
                     \<lparr>cfg_name = Some (''Specialist-'' @ showNat (agentIdCounter st)),
                      cfg_type = Some ''specialist'',
                      cfg_capabilities = Some (capabilitiesOrGeneral task)\<rparr> of
                (newAgent, st') \<Rightarrow> (Some newAgent, st'))
         | first # others \<Rightarrow> (Some (foldl fasterAgent first others), st)))"

subsection \<open>Task execution and the dispatcher\<close>

text \<open>
  The \<^verbatim>\<open>simulateTaskExecution\<close> of the source always resolves, with this object.
\<close>

definition simulateTaskExecution :: "task \<Rightarrow> agent \<Rightarrow> string + task_result" where
  "simulateTaskExecution task agent =
     Inr \<lparr>r_success = True, r_agent = a_name agent,
          r_message = ''Task '' @ t_name task @ '' completed successfully''\<rparr>"

text \<open>
  A settled promise as \<^verbatim>\<open>Promise.allSettled\<close> reports it: fulfilled with the task
  object that \<^verbatim>\<open>executeTask\<close> returns, or rejected with the message of the error.
\<close>

datatype outcome = Fulfilled task | Rejected string

text \<open>
  \<^verbatim>\<open>executeTask\<close> is an \<^verbatim>\<open>async\<close> method. Its call runs up to the first
  \<^verbatim>\<open>await\<close>, inside \<^verbatim>\<open>simulateTaskExecution\<close>, and the rest runs when the awaited
  promise settles. Between the two halves the call is \<open>Awaiting\<close>, with the id it gave
  the task, the task and the agent it chose. A call whose first half throws has a
  rejected promise at once.
\<close>

datatype pending = Awaiting string task agent | Thrown string

text \<open>Writing through the reference to an agent object of the registry.\<close>

definition updateAgent :: "string \<Rightarrow> (agent \<Rightarrow> agent) \<Rightarrow> agent list \<Rightarrow> agent list" where
  "updateAgent agentId f registry = map (\<lambda>a. if a_id a = agentId then f a else a) registry"

definition currentAgent :: "controller \<Rightarrow> agent \<Rightarrow> agent" where
  "currentAgent st agent =
     (case find (\<lambda>a. a_id a = a_id agent) (agents st) of None \<Rightarrow> agent | Some a \<Rightarrow> a)"

text \<open>Lines 123 to 137: the first half of \<^verbatim>\<open>executeTask\<close>.\<close>

definition startTask :: "controller \<Rightarrow> task \<Rightarrow> pending \<times> controller" where
  "startTask st task =
     (let taskId = ''task_'' @ showNat (taskIdCounter st);
          task1 = task\<lparr>t_id := Some taskId, t_status := ''executing''\<rparr>;
          st1 = st\<lparr>taskIdCounter := taskIdCounter st + 1,
                   events := events st @ [Started taskId]\<rparr>
      in case selectBestAgent st1 task1 of
           (Some bestAgent, st2) \<Rightarrow>
             (Awaiting taskId task1
                (bestAgent\<lparr>a_tasks := a_tasks bestAgent @ [taskId], a_status := ''busy''\<rparr>),
              st2\<lparr>agents := updateAgent (a_id bestAgent)
                      (\<lambda>a. a\<lparr>a_tasks := a_tasks a @ [taskId], a_status := ''busy''\<rparr>)
                      (agents st2)\<rparr>)
         | (None, st2) \<Rightarrow>
             (Thrown ''No suitable agent available'',
              st2\<lparr>events := events st2 @ [Settled taskId]\<rparr>))"

text \<open>
  Lines 144 to 148: the agent is idle again, and its mean execution time takes the new
  sample in. The product, the sum and the quotient are operations on doubles, each of
  which rounds its exact result.
\<close>

definition recordCompletion :: "rounding \<Rightarrow> nat \<Rightarrow> agent \<Rightarrow> agent" where
  "recordCompletion rnd executionTime a =
     (let n = c_tasksCompleted (a_performance a) + 1 in
      a\<lparr>a_status := ''idle'',
        a_performance := (a_performance a)
          \<lparr>c_tasksCompleted := n,
           c_avgExecutionTime :=
             rnd (rnd (rnd (c_avgExecutionTime (a_performance a) * real (n - 1))
                       + real executionTime)
                  / real n)\<rparr>\<rparr>)"

text \<open>
  Lines 137 to 161: the second half of \<^verbatim>\<open>executeTask\<close>. When the payload rejects,
  the \<^verbatim>\<open>catch\<close> block marks the task as failed and throws the error again; the agent
  is left as it is.
\<close>

definition finishTask :: "env \<Rightarrow> controller \<Rightarrow> pending \<Rightarrow> outcome \<times> controller" where
  "finishTask e st p =
     (case p of
        Thrown message \<Rightarrow> (Rejected message, st)
      | Awaiting taskId task agent \<Rightarrow>
          (case payload e task (currentAgent st agent) of
             Inr result \<Rightarrow>
               (Fulfilled (task\<lparr>t_status := ''completed'',
                               t_executionTime := Some (elapsed e task),
                               t_result := Some result\<rparr>),
                st\<lparr>agents := updateAgent (a_id agent)
                        (recordCompletion (rounded e) (elapsed e task)) (agents st),
                   events := events st @ [Settled taskId]\<rparr>)
           | Inl message \<Rightarrow>
               (Rejected message, st\<lparr>events := events st @ [Settled taskId]\<rparr>)))"

text \<open>\<^verbatim>\<open>batch.map(task => this.executeTask(task))\<close>: the calls, in the order of the batch.\<close>

fun startAll :: "controller \<Rightarrow> task list \<Rightarrow> pending list \<times> controller" where
  "startAll st [] = ([], st)"
| "startAll st (task # rest) =
     (case startTask st task of
        (p, st1) \<Rightarrow> (case startAll st1 rest of (ps, st2) \<Rightarrow> (p # ps, st2)))"

text \<open>
  The awaited promises settle as their timers fire: by increasing delay, and in the
  order of their creation where the delays are equal.
\<close>

fun pendingDelay :: "env \<Rightarrow> pending \<Rightarrow> nat" where
  "pendingDelay e (Awaiting taskId task agent) = delay e task"
| "pendingDelay e (Thrown message) = 0"

definition settleOrder :: "env \<Rightarrow> pending list \<Rightarrow> (nat \<times> pending) list" where
  "settleOrder e ps = sort_key (\<lambda>ip. pendingDelay e (snd ip)) (enumerate 0 ps)"

fun finishAll :: "env \<Rightarrow> controller \<Rightarrow> (nat \<times> pending) list
    \<Rightarrow> (nat \<times> outcome) list \<times> controller" where
  "finishAll e st [] = ([], st)"
| "finishAll e st ((i, p) # rest) =
     (case finishTask e st p of
        (out, st1) \<Rightarrow> (case finishAll e st1 rest of (outs, st2) \<Rightarrow> ((i, out) # outs, st2)))"

text \<open>
  One batch: \<^verbatim>\<open>await Promise.allSettled(batchPromises)\<close> resumes when every promise
  of the batch has settled, with the outcomes in the order of the promises.
\<close>

definition runBatch :: "env \<Rightarrow> controller \<Rightarrow> task list \<Rightarrow> outcome list \<times> controller" where
  "runBatch e st batch =
     (case startAll st batch of
        (ps, st1) \<Rightarrow>
          (case finishAll e st1 (settleOrder e ps) of
             (finished, st2) \<Rightarrow> (map snd (sort_key fst finished), st2)))"

text \<open>
  The loop \<^verbatim>\<open>for (let i = 0; i < tasks.length; i += maxParallel)\<close> of
  \<^verbatim>\<open>executeParallelTasks\<close>. With \<^verbatim>\<open>maxParallel\<close> 0 and a non-empty task list it never
  ends, which is the value \<open>None\<close>.
\<close>

partial_function (option) batchLoop :: "env \<Rightarrow> nat \<Rightarrow> task list \<Rightarrow> nat
    \<Rightarrow> outcome list \<Rightarrow> controller \<Rightarrow> (outcome list \<times> controller) option" where
  "batchLoop e maxParallel tasks i results st =
     (if i < length tasks then
        (case runBatch e st (take maxParallel (drop i tasks)) of
           (batchResults, st') \<Rightarrow>
             batchLoop e maxParallel tasks (i + maxParallel) (results @ batchResults) st')
      else Some (results, st))"

declare batchLoop.simps [code]

definition executeParallelTasks :: "env \<Rightarrow> controller \<Rightarrow> task list
    \<Rightarrow> (outcome list \<times> controller) option" where
  "executeParallelTasks e st tasks = batchLoop e (max_parallel_tasks st) tasks 0 [] st"

section \<open>BaseAgent (src/agents/base_agent.js)\<close>

text \<open>
  The \<^verbatim>\<open>performance\<close> object of an agent (without \<^verbatim>\<open>startTime\<close>). The counters are
  natural numbers; the mean execution time is a JavaScript number, a double: a real
  number that the arithmetic of \<^verbatim>\<open>updatePerformance\<close> rounds.
\<close>

record b_performance =
  b_tasksCompleted :: nat
  b_tasksSuccessful :: nat
  b_tasksFailed :: nat
  b_avgExecutionTime :: real

text \<open>
  A task as \<^verbatim>\<open>executeTask\<close> receives it and as it is stored in \<^verbatim>\<open>activeTasks\<close> and
  \<^verbatim>\<open>taskHistory\<close>. The result of \<^verbatim>\<open>performTask\<close> is opaque, a string here.
\<close>

record b_task =
  bt_id :: "string option"
  bt_name :: "string option"
  bt_status :: string
  bt_executionTime :: "nat option"
  bt_result :: "string option"
  bt_error :: "string option"

record base_agent =
  b_id :: string
  b_name :: string
  b_capabilities :: "string list"
  b_status :: string
  b_performance :: b_performance
  b_activeTasks :: "(string \<times> b_task) list"
  b_taskHistory :: "b_task list"
  b_maxConcurrentTasks :: int

text \<open>
  The constructor, for a configuration whose fields may be absent:
  \<^verbatim>\<open>config.id || `agent_${Date.now()}`\<close> (the clock is a parameter),
  \<^verbatim>\<open>config.name || 'BaseAgent'\<close>, \<^verbatim>\<open>config.capabilities || []\<close> and
  \<^verbatim>\<open>config.maxConcurrentTasks || 5\<close>, where the empty string and 0 are falsy.
\<close>

definition newBaseAgent :: "nat \<Rightarrow> string option \<Rightarrow> string option \<Rightarrow> string list option
    \<Rightarrow> int option \<Rightarrow> base_agent" where
  "newBaseAgent now agentId name capabilities maxConcurrentTasks =
     \<lparr>b_id = orElse agentId (''agent_'' @ showNat now),
      b_name = orElse name ''BaseAgent'',
      b_capabilities = (case capabilities of None \<Rightarrow> [] | Some cs \<Rightarrow> cs),
      b_status = ''initializing'',
      b_performance = \<lparr>b_tasksCompleted = 0, b_tasksSuccessful = 0, b_tasksFailed = 0,
                        b_avgExecutionTime = 0\<rparr>,
      b_activeTasks = [], b_taskHistory = [],
      b_maxConcurrentTasks = (case maxConcurrentTasks of None \<Rightarrow> 5
                              | Some m \<Rightarrow> if m = 0 then 5 else m)\<rparr>"

text \<open>
  \<^verbatim>\<open>updatePerformance(executionTime, success)\<close>, lines 136 to 148. The product, the
  sum and the quotient of lines 146 and 147 are operations on doubles, each of which
  rounds its exact result.
\<close>

definition updatePerformance :: "rounding \<Rightarrow> nat \<Rightarrow> bool \<Rightarrow> b_performance \<Rightarrow> b_performance" where
  "updatePerformance rnd executionTime success p =
     (let p1 = p\<lparr>b_tasksCompleted := b_tasksCompleted p + 1\<rparr>;
          p2 = (if success then p1\<lparr>b_tasksSuccessful := b_tasksSuccessful p1 + 1\<rparr>
                else p1\<lparr>b_tasksFailed := b_tasksFailed p1 + 1\<rparr>)
      in p2\<lparr>b_avgExecutionTime :=
              rnd (rnd (rnd (b_avgExecutionTime p2 * real (b_tasksCompleted p2 - 1))
                        + real executionTime)
                   / real (b_tasksCompleted p2))\<rparr>)"

text \<open>
  \<^verbatim>\<open>executeTask(task)\<close> is an \<^verbatim>\<open>async\<close> method that awaits \<^verbatim>\<open>performTask\<close>. Its
  first half (lines 68 to 84) refuses the task when \<^verbatim>\<open>activeTasks\<close> is full, and
  otherwise stores it under its id, or under an id made from the clock when it has
  none. The result is the id under which the task runs, or \<open>None\<close> for the refusal.
\<close>

definition mapSet :: "(string \<times> 'v) list \<Rightarrow> string \<Rightarrow> 'v \<Rightarrow> (string \<times> 'v) list" where
  "mapSet m k v =
     (if k \<in> fst ` set m then map (\<lambda>kv. if fst kv = k then (k, v) else kv) m else m @ [(k, v)])"

definition mapDelete :: "(string \<times> 'v) list \<Rightarrow> string \<Rightarrow> (string \<times> 'v) list" where
  "mapDelete m k = filter (\<lambda>kv. fst kv \<noteq> k) m"

definition executeTask_begin :: "base_agent \<Rightarrow> b_task \<Rightarrow> string \<Rightarrow> string option \<times> base_agent" where
  "executeTask_begin ag task clockId =
     (if int (length (b_activeTasks ag)) \<ge> b_maxConcurrentTasks ag then (None, ag)
      else
        (let taskId = (case bt_id task of
                         None \<Rightarrow> clockId
                       | Some i \<Rightarrow> if i = [] then clockId else i)
         in (Some taskId,
             ag\<lparr>b_activeTasks := mapSet (b_activeTasks ag) taskId
                                    (task\<lparr>bt_status := ''executing''\<rparr>)\<rparr>)))"

text \<open>
  The second half (lines 87 to 128), when \<^verbatim>\<open>performTask\<close> has resolved with a result
  (\<open>Inr\<close>) or rejected with an error message (\<open>Inl\<close>), \<^verbatim>\<open>executionTime\<close> being the
  time measured. Both branches call \<^verbatim>\<open>updatePerformance\<close>, push the task on the
  history and take it out of \<^verbatim>\<open>activeTasks\<close>. (The class registers no listener
  for the events it emits; listeners, and so a listener that throws, are not modelled.)
\<close>

definition executeTask_settle :: "rounding \<Rightarrow> base_agent \<Rightarrow> b_task \<Rightarrow> string \<Rightarrow> string + string
    \<Rightarrow> nat \<Rightarrow> base_agent" where
  "executeTask_settle rnd ag task taskId performed executionTime =
     (case performed of
        Inr result \<Rightarrow>
          ag\<lparr>b_performance := updatePerformance rnd executionTime True (b_performance ag),
             b_taskHistory := b_taskHistory ag @
               [task\<lparr>bt_id := Some taskId, bt_result := Some result, bt_status := ''completed'',
                     bt_executionTime := Some executionTime\<rparr>],
             b_activeTasks := mapDelete (b_activeTasks ag) taskId\<rparr>
      | Inl message \<Rightarrow>
          ag\<lparr>b_performance := updatePerformance rnd executionTime False (b_performance ag),
             b_taskHistory := b_taskHistory ag @
               [task\<lparr>bt_id := Some taskId, bt_error := Some message, bt_status := ''failed'',
                     bt_executionTime := Some executionTime\<rparr>],
             b_activeTasks := mapDelete (b_activeTasks ag) taskId\<rparr>)"

text \<open>A call of \<^verbatim>\<open>executeTask\<close> that no other call interleaves with.\<close>

definition executeTask :: "rounding \<Rightarrow> base_agent \<Rightarrow> b_task \<Rightarrow> string \<Rightarrow> string + string \<Rightarrow> nat
    \<Rightarrow> base_agent" where
  "executeTask rnd ag task clockId performed executionTime =
     (case executeTask_begin ag task clockId of
        (None, ag1) \<Rightarrow> ag1
      | (Some taskId, ag1) \<Rightarrow> executeTask_settle rnd ag1 task taskId performed executionTime)"








section \<open>Vocabulary of the properties\<close>

subsection \<open>Dependency resolver\<close>

text \<open>
  The dependency array and the priority that a lookup finds for a key. Every lookup of a
  task of the list finds an array (a number) unless the key of the task is the name of a
  member of \<^verbatim>\<open>Object.prototype\<close> and the dictionary has no entry of its own for it.
\<close>

definition depsList :: "(string \<rightharpoonup> string list) \<Rightarrow> string \<Rightarrow> string list" where
  "depsList dependencies taskId =
     (case depsOf dependencies taskId of Found ds \<Rightarrow> ds | Inherited \<Rightarrow> [])"

definition priorityValue :: "(string \<rightharpoonup> int) \<Rightarrow> string \<Rightarrow> int" where
  "priorityValue priority taskId =
     (case priorityOf priority taskId of Found p \<Rightarrow> p | Inherited \<Rightarrow> 0)"

definition arrayDeps :: "task list \<Rightarrow> (string \<rightharpoonup> string list) \<Rightarrow> bool" where
  "arrayDeps tasks dependencies =
     (\<forall>t\<in>set tasks. depsOf dependencies (taskKey t) \<noteq> Inherited)"

definition numericPriorities :: "task list \<Rightarrow> (string \<rightharpoonup> int) \<Rightarrow> bool" where
  "numericPriorities tasks priority =
     (\<forall>t\<in>set tasks. priorityOf priority (taskKey t) \<noteq> Inherited)"

text \<open>
  The test a task passes to enter the phase, the phase that one scan of the task list
  builds, and the \<^verbatim>\<open>inProgress\<close> set it leaves, when every lookup finds an array.
\<close>

definition qualifies :: "(string \<rightharpoonup> string list) \<Rightarrow> string list \<Rightarrow> string list \<Rightarrow> task \<Rightarrow> bool" where
  "qualifies dependencies completed inProgress t =
     (\<not> setHas completed (taskKey t) \<and> \<not> setHas inProgress (taskKey t)
      \<and> list_all (\<lambda>d. setHas completed d) (depsList dependencies (taskKey t)))"

fun newPhase :: "(string \<rightharpoonup> string list) \<Rightarrow> string list \<Rightarrow> task list \<Rightarrow> string list \<Rightarrow> task list" where
  "newPhase d c [] ip = []"
| "newPhase d c (a # ts) ip =
     (if qualifies d c ip a then a # newPhase d c ts (setAdd ip (taskKey a))
      else newPhase d c ts ip)"

fun newInProgress :: "(string \<rightharpoonup> string list) \<Rightarrow> string list \<Rightarrow> task list \<Rightarrow> string list \<Rightarrow> string list" where
  "newInProgress d c [] ip = ip"
| "newInProgress d c (a # ts) ip =
     (if qualifies d c ip a then newInProgress d c ts (setAdd ip (taskKey a))
      else newInProgress d c ts ip)"

text \<open>
  The dependency relation of a task list: \<open>(d, k)\<close> when a task of key \<open>k\<close> has \<open>d\<close> in its
  dependency array. The dependency map is closed when every id it names for a task of the
  list is the key of a task of the list. A key is resolvable when it is the key of a task
  all of whose dependencies are resolvable.
\<close>

definition depRel :: "task list \<Rightarrow> (string \<rightharpoonup> string list) \<Rightarrow> (string \<times> string) set" where
  "depRel tasks dependencies =
     {(d, taskKey t) | d t. t \<in> set tasks \<and> d \<in> set (depsList dependencies (taskKey t))}"

definition depsClosed :: "task list \<Rightarrow> (string \<rightharpoonup> string list) \<Rightarrow> bool" where
  "depsClosed tasks dependencies =
     (\<forall>t\<in>set tasks. set (depsList dependencies (taskKey t)) \<subseteq> taskKey ` set tasks)"

inductive resolvable :: "task list \<Rightarrow> (string \<rightharpoonup> string list) \<Rightarrow> string \<Rightarrow> bool"
  for tasks dependencies where
  "t \<in> set tasks \<Longrightarrow> \<forall>d\<in>set (depsList dependencies (taskKey t)). resolvable tasks dependencies d
     \<Longrightarrow> resolvable tasks dependencies (taskKey t)"

text \<open>
  The keys placed in the phases before position \<open>i\<close>; the dependencies of every task lie in
  earlier phases; a phase is in descending order of priority, with the tasks of one
  priority in the order of the task list.
\<close>

definition placedBefore :: "task list list \<Rightarrow> nat \<Rightarrow> string set" where
  "placedBefore ps i = taskKey ` set (concat (take i ps))"

definition depsEarlier :: "(string \<rightharpoonup> string list) \<Rightarrow> task list list \<Rightarrow> bool" where
  "depsEarlier dependencies ps =
     (\<forall>i<length ps. \<forall>t\<in>set (ps ! i). set (depsList dependencies (taskKey t)) \<subseteq> placedBefore ps i)"

definition phaseOrdered :: "(string \<rightharpoonup> int) \<Rightarrow> task list \<Rightarrow> task list \<Rightarrow> bool" where
  "phaseOrdered priority tasks p =
     (sorted_wrt (\<lambda>a b. priorityValue priority (taskKey a) \<ge> priorityValue priority (taskKey b)) p
      \<and> (\<forall>k. subseq (filter (\<lambda>t. priorityValue priority (taskKey t) = k) p) tasks))"

text \<open>
  A task is the first of the list with its key. The keys that are ready once a set of
  keys is placed: those of the tasks that are not placed and have all their
  dependencies placed. The phases are waves when each holds the tasks of exactly the
  keys that are ready once the phases before it are placed.
\<close>

definition firstWithKey :: "task list \<Rightarrow> task \<Rightarrow> bool" where
  "firstWithKey tasks t = (find (\<lambda>u. taskKey u = taskKey t) tasks = Some t)"

definition readyKeys :: "task list \<Rightarrow> (string \<rightharpoonup> string list) \<Rightarrow> string set \<Rightarrow> string set" where
  "readyKeys tasks dependencies placed =
     {k \<in> taskKey ` set tasks. k \<notin> placed \<and> set (depsList dependencies k) \<subseteq> placed}"

definition phasesAreWaves :: "task list \<Rightarrow> (string \<rightharpoonup> string list) \<Rightarrow> task list list \<Rightarrow> bool" where
  "phasesAreWaves tasks dependencies ps =
     (\<forall>i<length ps. taskKey ` set (ps ! i) = readyKeys tasks dependencies (placedBefore ps i))"

text \<open>
  What holds of the \<^verbatim>\<open>completed\<close> set and the phases throughout the loop, at the head
  of the loop, and when the loop is left.
\<close>

definition planFacts :: "task list \<Rightarrow> (string \<rightharpoonup> string list) \<Rightarrow> (string \<rightharpoonup> int) \<Rightarrow> string list \<Rightarrow> task list list \<Rightarrow> bool" where
  "planFacts tasks d prio c ps = (
     distinct c \<and> set c = taskKey ` set (concat ps) \<and> set (concat ps) \<subseteq> set tasks
     \<and> distinct (map taskKey (concat ps)) \<and> (\<forall>k\<in>set c. resolvable tasks d k)
     \<and> depsEarlier d ps
     \<and> (\<forall>p\<in>set ps. p \<noteq> [] \<and> (\<exists>q. subseq q tasks \<and> p = sortPhase prio q))
     \<and> (\<forall>t\<in>set (concat ps). firstWithKey tasks t)
     \<and> phasesAreWaves tasks d ps)"

definition planInv :: "task list \<Rightarrow> (string \<rightharpoonup> string list) \<Rightarrow> (string \<rightharpoonup> int) \<Rightarrow> plan_state \<Rightarrow> bool" where
  "planInv tasks d prio st = (case st of (c, ip, ps, lg) \<Rightarrow>
     ip = [] \<and> lg = [] \<and> planFacts tasks d prio c ps)"

definition planFinal :: "task list \<Rightarrow> (string \<rightharpoonup> string list) \<Rightarrow> (string \<rightharpoonup> int) \<Rightarrow> plan_state \<Rightarrow> bool" where
  "planFinal tasks d prio st = (case st of (c, ip, ps, lg) \<Rightarrow>
     planFacts tasks d prio c ps
     \<and> ((lg = [] \<and> length tasks \<le> length c)
        \<or> (lg = [cycleWarning] \<and> length c < length tasks
           \<and> (\<forall>t\<in>set tasks. taskKey t \<in> set c \<or> \<not> set (depsList d (taskKey t)) \<subseteq> set c))))"

text \<open>The plan object that \<^verbatim>\<open>buildExecutionPlan\<close> makes of a list of phases.\<close>

definition planOf :: "task list list \<Rightarrow> plan" where
  "planOf ps = \<lparr>phases = ps, estimatedTime = 1000 * length ps,
                requiredAgents = mathMax (map length ps)\<rparr>"

text \<open>
  Three tasks, of which the last two depend on each other: the plan that comes back has
  the one phase with the first task.
\<close>

definition cyclicTasks :: "task list" where
  "cyclicTasks = [createTask ''T0'' [], createTask ''T1'' [], createTask ''T2'' []]"

definition cyclicDeps :: "string \<rightharpoonup> string list" where
  "cyclicDeps = [''T1'' \<mapsto> [''T2''], ''T2'' \<mapsto> [''T1'']]"

text \<open>
  Three tasks with priorities 5, 5 and 9, the second depending on the first.
\<close>

definition scenarioTasks :: "task list" where
  "scenarioTasks = [createTask ''T1'' [], createTask ''T2'' [], createTask ''T3'' []]"

definition scenarioDeps :: "string \<rightharpoonup> string list" where
  "scenarioDeps = [''T2'' \<mapsto> [''T1'']]"

definition scenarioPriority :: "string \<rightharpoonup> int" where
  "scenarioPriority = [''T1'' \<mapsto> 5, ''T2'' \<mapsto> 5, ''T3'' \<mapsto> 9]"

text \<open>
  A task that depends on an id that no task carries, and two tasks of the same name and
  without ids, as two calls of \<^verbatim>\<open>createTask\<close> with one name make them.
\<close>

definition danglingTasks :: "task list" where
  "danglingTasks = [createTask ''T1'' []]"

definition danglingDeps :: "string \<rightharpoonup> string list" where
  "danglingDeps = [''T1'' \<mapsto> [''T9'']]"

definition sameNameTasks :: "task list" where
  "sameNameTasks = [createTask ''Build'' [''compilation''], createTask ''Build'' [''bundling'']]"

text \<open>
  A task named like a member of \<^verbatim>\<open>Object.prototype\<close>, with a dependency array of its
  own and no priority of its own, before a task of priority 1.
\<close>

definition inheritedTasks :: "task list" where
  "inheritedTasks = [createTask ''constructor'' [], createTask ''A'' []]"

definition inheritedDeps :: "string \<rightharpoonup> string list" where
  "inheritedDeps = [''constructor'' \<mapsto> []]"

definition inheritedPriority :: "string \<rightharpoonup> int" where
  "inheritedPriority = [''A'' \<mapsto> 1]"

subsection \<open>Agent selection\<close>

text \<open>
  The controller as its constructor and the default configuration leave it, and an agent
  of the kind the command line creates.
\<close>

definition newController :: controller where
  "newController = \<lparr>agents = [], taskIdCounter = 1, agentIdCounter = 1,
      max_parallel_tasks = 10, events = []\<rparr>"

definition lintAgent :: agent where
  "lintAgent = \<lparr>a_id = ''agent_1'', a_name = ''DevAgent'', a_type = ''developer'',
      a_capabilities = [''code_analysis'', ''testing''], a_status = ''idle'', a_tasks = [],
      a_performance = \<lparr>c_tasksCompleted = 0, c_avgExecutionTime = 0, c_successRate = 100\<rparr>\<rparr>"

text \<open>
  Two agents of the master orchestrator and the task that its command line submits
  (\<^verbatim>\<open>case 'task'\<close>); the task has no \<^verbatim>\<open>retries\<close> field.
\<close>

definition frontendAgent :: m_agent where
  "frontendAgent = \<lparr>m_id = ''frontend'', m_name = ''Frontend Developer'',
      m_role = ''Frontend Developer'', m_primary = [''react'', ''responsive_design''],
      m_priority = 9, m_status = ''idle'', m_currentTask = None\<rparr>"

definition designAgent :: m_agent where
  "designAgent = \<lparr>m_id = ''design'', m_name = ''UI Designer'', m_role = ''UI/UX Designer'',
      m_primary = [''figma'', ''responsive_design''], m_priority = 5, m_status = ''idle'',
      m_currentTask = None\<rparr>"

definition landingPage :: m_task where
  "landingPage = \<lparr>mt_name = ''Create landing page'', mt_type = Some ''frontend'',
      mt_requiredCapabilities = Some [''react'', ''responsive_design''],
      mt_retries = None, mt_excludeAgents = None\<rparr>"

definition initialMaster :: master where
  "initialMaster = \<lparr>m_agents = [frontendAgent, designAgent], m_taskQueue = [],
      m_performanceMetrics =
        [''frontend'' \<mapsto> \<lparr>mm_tasksCompleted = 0, mm_tasksFailed = 0, mm_avgExecutionTime = 0\<rparr>,
         ''design'' \<mapsto> \<lparr>mm_tasksCompleted = 0, mm_tasksFailed = 0, mm_avgExecutionTime = 0\<rparr>]\<rparr>"

subsection \<open>Failure and retry\<close>

text \<open>
  What is observed of the orchestrator after a failure: the task queue, and for each
  agent its id, its status and the \<^verbatim>\<open>excludeAgents\<close> of its current task.
\<close>

definition retryView :: "js_error + master
    \<Rightarrow> (m_task list \<times> (string \<times> string \<times> string list option option) list) option" where
  "retryView r =
     (case r of
        Inl err \<Rightarrow> None
      | Inr ms \<Rightarrow>
          Some (m_taskQueue ms,
                map (\<lambda>a. (m_id a, m_status a, map_option mt_excludeAgents (m_currentTask a)))
                    (m_agents ms)))"

subsection \<open>Performance counters of BaseAgent\<close>





text \<open>A task, for a run with one success of 100 ms and one failure of 300 ms.\<close>

definition sampleTask :: b_task where
  "sampleTask = \<lparr>bt_id = Some ''t1'', bt_name = Some ''build'', bt_status = ''pending'',
      bt_executionTime = None, bt_result = None, bt_error = None\<rparr>"

subsection \<open>The dispatcher\<close>

text \<open>
  The id that \<^verbatim>\<open>executeTask\<close> gives a task when the counter stands at \<open>n\<close>, the task
  as the first half of \<^verbatim>\<open>executeTask\<close> leaves it, and the outcome of a started task on
  an agent: what the payload decides for this task, and nothing else.
\<close>

definition taskIdAt :: "nat \<Rightarrow> string" where
  "taskIdAt n = ''task_'' @ showNat n"

definition startedTask :: "string \<Rightarrow> task \<Rightarrow> task" where
  "startedTask taskId task = task\<lparr>t_id := Some taskId, t_status := ''executing''\<rparr>"

definition taskOutcome :: "env \<Rightarrow> task \<Rightarrow> agent \<Rightarrow> outcome" where
  "taskOutcome e task agent =
     (case payload e task agent of
        Inr result \<Rightarrow> Fulfilled (task\<lparr>t_status := ''completed'',
                                      t_executionTime := Some (elapsed e task),
                                      t_result := Some result\<rparr>)
      | Inl message \<Rightarrow> Rejected message)"

text \<open>
  An outcome belongs to a task of the input when it is the outcome of this task, started
  under some id, on some agent.
\<close>

definition outcomeOf :: "env \<Rightarrow> task \<Rightarrow> outcome \<Rightarrow> bool" where
  "outcomeOf e task out = (\<exists>taskId agent. out = taskOutcome e (startedTask taskId task) agent)"

text \<open>
  The id of a call that is awaiting its payload; a call that stands for a task of the
  batch; an outcome that stands for such a call, under the same index.
\<close>

fun pendingId :: "pending \<Rightarrow> string" where
  "pendingId (Awaiting taskId task agent) = taskId"
| "pendingId (Thrown message) = []"

definition startedAs :: "task \<Rightarrow> pending \<Rightarrow> bool" where
  "startedAs task p = (\<exists>taskId agent. p = Awaiting taskId (startedTask taskId task) agent)"

definition settledAs :: "env \<Rightarrow> nat \<times> pending \<Rightarrow> nat \<times> outcome \<Rightarrow> bool" where
  "settledAs e ip io =
     (fst io = fst ip
      \<and> (\<exists>taskId task agent agent'. snd ip = Awaiting taskId task agent
             \<and> snd io = taskOutcome e task agent'))"

text \<open>
  The events of one batch: the calls for the tasks of the batch, then the settling of
  the same tasks in some order.
\<close>

definition blockEvents :: "string list \<times> string list \<Rightarrow> event list" where
  "blockEvents b = map Started (fst b) @ map Settled (snd b)"

text \<open>The number of tasks that were started and have not settled, after a list of events.\<close>

fun inFlight :: "event list \<Rightarrow> int" where
  "inFlight [] = 0"
| "inFlight (Started taskId # es) = 1 + inFlight es"
| "inFlight (Settled taskId # es) = inFlight es - 1"

text \<open>
  Three tasks in batches of two; the payload of the second task fails, and the first
  task takes longer than the second.
\<close>

definition demoTasks :: "task list" where
  "demoTasks = [createTask ''Lint Code'' [''code_analysis''],
                createTask ''Format Code'' [''formatting''],
                createTask ''Check Types'' [''type_checking'']]"

definition demoEnv :: env where
  "demoEnv = \<lparr>payload = (\<lambda>task agent. if t_name task = ''Format Code'' then Inl ''formatter crashed''
                                      else simulateTaskExecution task agent),
              elapsed = (\<lambda>task. 700),
              delay = (\<lambda>task. if t_name task = ''Lint Code'' then 900 else 600),
              rounded = (\<lambda>x. x)\<rparr>"

fun isFulfilled :: "outcome \<Rightarrow> bool" where
  "isFulfilled (Fulfilled task) = True"
| "isFulfilled (Rejected message) = False"

section \<open>Conflict resolution policy\<close>

text \<open>
  Claim C4. The strategy that \<^verbatim>\<open>resolveConflict\<close> passes on depends only on the
  priority of the agent and on the threshold 7: it is \<^verbatim>\<open>'ours'\<close> exactly when the
  priority is greater than the threshold and \<^verbatim>\<open>'theirs'\<close> otherwise. Priority 9
  gives \<^verbatim>\<open>'ours'\<close>, priority 4 gives \<^verbatim>\<open>'theirs'\<close>.
\<close>

theorem resolveConflict_policy:
  assumes "agentsGet registry agentId = Some agent"
  shows "\<exists>s. resolveConflict registry agentId = Inr (agentId, s)
           \<and> s = conflictStrategy (m_priority agent)
           \<and> (s = ''ours'' \<longleftrightarrow> m_priority agent > conflictThreshold)
           \<and> (s = ''theirs'' \<longleftrightarrow> \<not> m_priority agent > conflictThreshold)
           \<and> conflictThreshold = 7
           \<and> conflictStrategy 9 = ''ours'' \<and> conflictStrategy 4 = ''theirs''"
  using assms by (simp add: resolveConflict_def conflictStrategy_def conflictThreshold_def)

theorem resolveConflict_policy_witness:
  "resolveConflict
     [\<lparr>m_id = ''a1'', m_name = ''Frontend'', m_role = ''frontend'', m_primary = [''react''],
        m_priority = 9, m_status = ''idle'', m_currentTask = None\<rparr>,
      \<lparr>m_id = ''a2'', m_name = ''Docs'', m_role = ''documentation'', m_primary = [''markdown''],
        m_priority = 4, m_status = ''idle'', m_currentTask = None\<rparr>] ''a2'' = Inr (''a2'', ''theirs'')"
  using resolveConflict_policy [of
     "[\<lparr>m_id = ''a1'', m_name = ''Frontend'', m_role = ''frontend'', m_primary = [''react''],
        m_priority = 9, m_status = ''idle'', m_currentTask = None\<rparr>,
      \<lparr>m_id = ''a2'', m_name = ''Docs'', m_role = ''documentation'', m_primary = [''markdown''],
        m_priority = 4, m_status = ''idle'', m_currentTask = None\<rparr>]" "''a2''"
     "\<lparr>m_id = ''a2'', m_name = ''Docs'', m_role = ''documentation'', m_primary = [''markdown''],
        m_priority = 4, m_status = ''idle'', m_currentTask = None\<rparr>"]
  by (simp add: agentsGet_def conflictStrategy_def conflictThreshold_def)

section \<open>Dependency resolver\<close>

lemma set_completeTask: "set (completeTask t c) = insert (taskKey t) (set c)"
  by (auto simp: completeTask_def setAdd_def setHas_def)

lemma distinct_completeTask: "distinct c \<Longrightarrow> distinct (completeTask t c)"
  by (auto simp: completeTask_def setAdd_def setHas_def)

lemma set_fold_completeTask: "set (fold completeTask ts c) = set c \<union> taskKey ` set ts"
  by (induction ts arbitrary: c) (auto simp: set_completeTask)

lemma distinct_fold_completeTask: "distinct c \<Longrightarrow> distinct (fold completeTask ts c)"
  by (induction ts arbitrary: c) (auto simp: distinct_completeTask)

lemma set_fold_releaseTask: "set (fold releaseTask ts ip) = set ip - taskKey ` set ts"
  by (induction ts arbitrary: ip) (auto simp: releaseTask_def setDelete_def)

lemma depsOf_depsList:
  "depsOf d k \<noteq> Inherited \<Longrightarrow> depsOf d k = Found (depsList d k)"
  by (cases "depsOf d k") (simp_all add: depsList_def)

lemma priorityOf_priorityValue:
  "priorityOf prio k \<noteq> Inherited \<Longrightarrow> priorityOf prio k = Found (priorityValue prio k)"
  by (cases "priorityOf prio k") (simp_all add: priorityValue_def)

text \<open>When every lookup finds an array, the scan does not throw.\<close>

lemma scanTasks_arrays:
  "arrayDeps ts d \<Longrightarrow>
     scanTasks d c ts (phase, ip) = Inr (phase @ newPhase d c ts ip, newInProgress d c ts ip)"
proof (induction ts arbitrary: phase ip)
  case Nil
  show ?case by simp
next
  case (Cons a ts)
  from Cons.prems have a: "depsOf d (taskKey a) = Found (depsList d (taskKey a))"
    and rest: "arrayDeps ts d"
    by (simp_all add: arrayDeps_def depsOf_depsList)
  show ?case
  proof (cases "qualifies d c ip a")
    case True
    then show ?thesis
      using Cons.IH [OF rest, of "phase @ [a]" "setAdd ip (taskKey a)"] a
      by (simp add: qualifies_def Let_def)
  next
    case False
    then show ?thesis
      using Cons.IH [OF rest, of phase ip] a
      by (auto simp: qualifies_def Let_def)
  qed
qed

text \<open>
  When the key of a task is the name of an inherited member and the dependency map has
  no entry of its own for it, the first scan throws.
\<close>

lemma scanTasks_inherited:
  assumes "\<not> arrayDeps ts d"
    and "\<forall>k\<in>set c \<union> set ip. depsOf d k \<noteq> Inherited"
  shows "scanTasks d c ts (phase, ip) = Inl (TypeError ''deps.every is not a function'')"
  using assms
proof (induction ts arbitrary: phase ip)
  case Nil
  then show ?case by (simp add: arrayDeps_def)
next
  case (Cons a ts)
  show ?case
  proof (cases "depsOf d (taskKey a)")
    case Inherited
    with Cons.prems(2) have "\<not> setHas c (taskKey a)" and "\<not> setHas ip (taskKey a)"
      by (auto simp: setHas_def)
    with Inherited show ?thesis by (simp add: Let_def)
  next
    case (Found deps)
    with Cons.prems(1) have rest: "\<not> arrayDeps ts d" by (simp add: arrayDeps_def)
    have ip': "\<forall>k\<in>set c \<union> set (setAdd ip (taskKey a)). depsOf d k \<noteq> Inherited"
      using Cons.prems(2) Found by (auto simp: setAdd_def setHas_def)
    show ?thesis
      using Cons.IH [OF rest Cons.prems(2), of phase]
            Cons.IH [OF rest ip', of "phase @ [a]"] Found
      by (simp add: Let_def)
  qed
qed

lemma set_setAdd: "set (setAdd s x) = insert x (set s)"
  by (auto simp: setAdd_def setHas_def)

lemma newPhase_subseq: "subseq (newPhase d c ts ip) ts"
  by (induction ts arbitrary: ip) auto

lemma subseq_member:
  assumes "subseq xs ys" and "x \<in> set xs"
  shows "x \<in> set ys"
proof -
  from assms obtain y where "y \<in> set ys" "x = y" by (rule list_emb_set)
  then show ?thesis by simp
qed

lemma newPhase_qualified:
  "t \<in> set (newPhase d c ts ip) \<Longrightarrow>
     taskKey t \<notin> set c \<and> taskKey t \<notin> set ip \<and> set (depsList d (taskKey t)) \<subseteq> set c"
proof (induction ts arbitrary: ip)
  case Nil
  then show ?case by simp
next
  case (Cons a ts)
  show ?case
  proof (cases "qualifies d c ip a")
    case False
    with Cons show ?thesis by simp
  next
    case True
    show ?thesis
    proof (cases "t = a")
      case True
      with \<open>qualifies d c ip a\<close> show ?thesis
        by (auto simp: qualifies_def setHas_def list_all_iff)
    next
      case False
      with True Cons.prems have "t \<in> set (newPhase d c ts (setAdd ip (taskKey a)))"
        by simp
      from Cons.IH [OF this] show ?thesis by (auto simp: set_setAdd)
    qed
  qed
qed

lemma newPhase_distinct_keys: "distinct (map taskKey (newPhase d c ts ip))"
proof (induction ts arbitrary: ip)
  case Nil
  show ?case by simp
next
  case (Cons a ts)
  show ?case
  proof (cases "qualifies d c ip a")
    case False
    with Cons show ?thesis by simp
  next
    case True
    have "taskKey a \<notin> taskKey ` set (newPhase d c ts (setAdd ip (taskKey a)))"
    proof
      assume "taskKey a \<in> taskKey ` set (newPhase d c ts (setAdd ip (taskKey a)))"
      then obtain t where t: "t \<in> set (newPhase d c ts (setAdd ip (taskKey a)))"
        and same: "taskKey t = taskKey a" by auto
      from newPhase_qualified [OF t] have "taskKey t \<notin> set (setAdd ip (taskKey a))" by simp
      with same show False by (simp add: set_setAdd)
    qed
    with True Cons.IH show ?thesis by simp
  qed
qed

lemma set_newInProgress:
  "set (newInProgress d c ts ip) = set ip \<union> taskKey ` set (newPhase d c ts ip)"
  by (induction ts arbitrary: ip) (auto simp: set_setAdd)

lemma newInProgress_complete:
  "t \<in> set ts \<Longrightarrow> taskKey t \<notin> set c \<Longrightarrow> set (depsList d (taskKey t)) \<subseteq> set c
     \<Longrightarrow> taskKey t \<in> set (newInProgress d c ts ip)"
proof (induction ts arbitrary: ip)
  case Nil
  then show ?case by simp
next
  case (Cons a ts)
  have mono: "set ip' \<subseteq> set (newInProgress d c ts ip')" for ip'
    by (simp add: set_newInProgress)
  show ?case
  proof (cases "t = a")
    case True
    show ?thesis
    proof (cases "qualifies d c ip a")
      case True
      with \<open>t = a\<close> mono [of "setAdd ip (taskKey a)"] show ?thesis
        by (auto simp: set_setAdd)
    next
      case False
      with \<open>t = a\<close> Cons.prems have "taskKey a \<in> set ip"
        by (auto simp: qualifies_def setHas_def list_all_iff)
      with False \<open>t = a\<close> mono [of ip] show ?thesis
        by auto
    qed
  next
    case False
    with Cons.prems have "t \<in> set ts" by simp
    from Cons.IH [OF this Cons.prems(2,3)] show ?thesis
      by simp
  qed
qed

text \<open>A task of the phase is the first task of the list with its key.\<close>

lemma newPhase_first:
  "t \<in> set (newPhase d c ts ip) \<Longrightarrow> find (\<lambda>u. taskKey u = taskKey t) ts = Some t"
proof (induction ts arbitrary: ip)
  case Nil
  then show ?case by simp
next
  case (Cons a ts)
  from newPhase_qualified [OF Cons.prems]
  have q: "taskKey t \<notin> set c" "taskKey t \<notin> set ip" "set (depsList d (taskKey t)) \<subseteq> set c"
    by simp_all
  show ?case
  proof (cases "t = a")
    case True
    then show ?thesis by simp
  next
    case other: False
    show ?thesis
    proof (cases "qualifies d c ip a")
      case True
      with other Cons.prems have t: "t \<in> set (newPhase d c ts (setAdd ip (taskKey a)))"
        by simp
      from newPhase_qualified [OF t] have "taskKey t \<noteq> taskKey a"
        by (auto simp: set_setAdd)
      with Cons.IH [OF t] show ?thesis by simp
    next
      case False
      with Cons.prems have t: "t \<in> set (newPhase d c ts ip)" by simp
      have "taskKey t \<noteq> taskKey a"
      proof
        assume "taskKey t = taskKey a"
        with q have "qualifies d c ip a"
          by (auto simp: qualifies_def setHas_def list_all_iff)
        with False show False by simp
      qed
      with Cons.IH [OF t] show ?thesis by simp
    qed
  qed
qed

text \<open>The keys of the phase are exactly the keys that are ready.\<close>

lemma newPhase_ready:
  "taskKey ` set (newPhase d c tasks []) = readyKeys tasks d (set c)"
proof (intro equalityI subsetI)
  fix k assume "k \<in> taskKey ` set (newPhase d c tasks [])"
  then obtain t where t: "t \<in> set (newPhase d c tasks [])" and k: "k = taskKey t" by blast
  from newPhase_subseq [of d c tasks "[]"] t have "t \<in> set tasks"
    by (rule subseq_member)
  with newPhase_qualified [OF t] k show "k \<in> readyKeys tasks d (set c)"
    by (simp add: readyKeys_def)
next
  fix k assume "k \<in> readyKeys tasks d (set c)"
  then obtain t where t: "t \<in> set tasks" and k: "k = taskKey t"
    and nc: "taskKey t \<notin> set c" and deps: "set (depsList d (taskKey t)) \<subseteq> set c"
    by (auto simp: readyKeys_def)
  from t nc deps have "taskKey t \<in> set (newInProgress d c tasks [])"
    by (rule newInProgress_complete)
  with k show "k \<in> taskKey ` set (newPhase d c tasks [])"
    by (simp add: set_newInProgress)
qed

declare planLoop.simps [simp del]

lemma planLoop_unfold:
  assumes "arrayDeps tasks d"
  shows "planLoop tasks d prio (c, ip, ps, lg) =
     (if length c < length tasks then
        (if newPhase d c tasks ip = []
         then Inr (c, newInProgress d c tasks ip, ps, lg @ [cycleWarning])
         else planLoop tasks d prio
                (fold completeTask (sortPhase prio (newPhase d c tasks ip)) c,
                 fold releaseTask (sortPhase prio (newPhase d c tasks ip)) (newInProgress d c tasks ip),
                 ps @ [sortPhase prio (newPhase d c tasks ip)], lg))
      else Inr (c, ip, ps, lg))"
  by (subst planLoop.simps) (simp add: scanTasks_arrays [OF assms])

lemma planLoop_throws:
  assumes "\<not> arrayDeps tasks d"
  shows "planLoop tasks d prio ([], [], [], []) = Inl (TypeError ''deps.every is not a function'')"
proof -
  from assms have "tasks \<noteq> []" by (auto simp: arrayDeps_def)
  moreover have "scanTasks d [] tasks ([], []) = Inl (TypeError ''deps.every is not a function'')"
    using assms by (rule scanTasks_inherited) simp
  ultimately show ?thesis by (subst planLoop.simps) simp
qed

lemma mset_insertSorted: "mset (insertSorted comparefn x ys) = add_mset x (mset ys)"
  by (induction ys) simp_all

lemma mset_arraySort: "mset (arraySort comparefn xs) = mset xs"
  by (induction xs) (simp_all add: arraySort_def mset_insertSorted)

lemma mset_sortPhase: "mset (sortPhase prio p) = mset p"
  by (simp add: sortPhase_def mset_arraySort)

lemma sortPhase_Nil_iff [simp]: "sortPhase prio p = [] \<longleftrightarrow> p = []"
  by (metis set_sortPhase set_empty)

lemma distinct_keys_sortPhase:
  "distinct (map taskKey (sortPhase prio p)) = distinct (map taskKey p)"
proof -
  have "mset (map taskKey (sortPhase prio p)) = mset (map taskKey p)"
    by (simp add: mset_sortPhase)
  then show ?thesis by (metis mset_eq_imp_distinct_iff)
qed

text \<open>
  When every priority looked up is a number, the sort is the stable sort by descending
  priority.
\<close>

lemma insertSorted_numeric:
  assumes "\<forall>t\<in>set (x # ys). priorityOf prio (taskKey t) \<noteq> Inherited"
  shows "insertSorted (comparePriority prio) x ys
           = insort_key (\<lambda>t. - priorityValue prio (taskKey t)) x ys"
  using assms
proof (induction ys)
  case Nil
  show ?case by simp
next
  case (Cons y ys)
  from Cons.prems have x: "priorityOf prio (taskKey x) = Found (priorityValue prio (taskKey x))"
    and y: "priorityOf prio (taskKey y) = Found (priorityValue prio (taskKey y))"
    by (simp_all add: priorityOf_priorityValue)
  have cmp: "sortCompare (comparePriority prio) x y
               = priorityValue prio (taskKey y) - priorityValue prio (taskKey x)"
    by (simp add: sortCompare_def comparePriority_def x y)
  from Cons.prems have "\<forall>t\<in>set (x # ys). priorityOf prio (taskKey t) \<noteq> Inherited" by simp
  from Cons.IH [OF this] cmp show ?case by simp
qed

lemma sortPhase_numeric:
  assumes "\<forall>t\<in>set p. priorityOf prio (taskKey t) \<noteq> Inherited"
  shows "sortPhase prio p = sort_key (\<lambda>t. - priorityValue prio (taskKey t)) p"
  using assms
proof (induction p)
  case Nil
  show ?case by (simp add: sortPhase_def arraySort_def)
next
  case (Cons x xs)
  from Cons.prems have xs: "\<forall>t\<in>set xs. priorityOf prio (taskKey t) \<noteq> Inherited" by simp
  have tail: "arraySort (comparePriority prio) xs
                = sort_key (\<lambda>t. - priorityValue prio (taskKey t)) xs"
    using Cons.IH [OF xs] by (simp add: sortPhase_def)
  have "\<forall>t\<in>set (x # sort_key (\<lambda>t. - priorityValue prio (taskKey t)) xs).
          priorityOf prio (taskKey t) \<noteq> Inherited"
    using Cons.prems by simp
  from insertSorted_numeric [OF this] tail show ?case
    by (simp add: sortPhase_def arraySort_def)
qed

lemma phaseOrdered_sortPhase:
  assumes "subseq p tasks" and num: "numericPriorities tasks prio"
  shows "phaseOrdered prio tasks (sortPhase prio p)"
proof -
  let ?g = "\<lambda>t. - priorityValue prio (taskKey t)"
  have "set p \<subseteq> set tasks" using assms(1) by (auto intro: subseq_member)
  with num have "\<forall>t\<in>set p. priorityOf prio (taskKey t) \<noteq> Inherited"
    by (auto simp: numericPriorities_def)
  then have sp: "sortPhase prio p = sort_key ?g p" by (rule sortPhase_numeric)
  have "sorted (map ?g (sort_key ?g p))" by (rule sorted_sort_key)
  then have a: "sorted_wrt (\<lambda>a b. priorityValue prio (taskKey a) \<ge> priorityValue prio (taskKey b))
                  (sortPhase prio p)"
    by (simp add: sorted_map sp)
  have b: "subseq (filter (\<lambda>t. priorityValue prio (taskKey t) = k) (sortPhase prio p)) tasks" for k
  proof -
    have "filter (\<lambda>t. priorityValue prio (taskKey t) = k) (sortPhase prio p)
            = filter (\<lambda>t. ?g t = - k) (sort_key ?g p)"
      by (simp add: sp)
    also have "\<dots> = filter (\<lambda>t. ?g t = - k) p" by (rule sort_key_stable)
    finally have "subseq (filter (\<lambda>t. priorityValue prio (taskKey t) = k) (sortPhase prio p)) p"
      by simp
    from this assms(1) show ?thesis by (rule subseq_order.trans)
  qed
  from a b show ?thesis by (simp add: phaseOrdered_def)
qed

lemma depsEarlier_snoc:
  assumes "depsEarlier d ps"
    and "\<forall>t\<in>set p. set (depsList d (taskKey t)) \<subseteq> taskKey ` set (concat ps)"
  shows "depsEarlier d (ps @ [p])"
  unfolding depsEarlier_def
proof (intro allI impI ballI)
  fix i t
  assume i: "i < length (ps @ [p])" and t: "t \<in> set ((ps @ [p]) ! i)"
  show "set (depsList d (taskKey t)) \<subseteq> placedBefore (ps @ [p]) i"
  proof (cases "i < length ps")
    case True
    with t assms(1) show ?thesis
      by (auto simp: depsEarlier_def placedBefore_def nth_append)
  next
    case False
    with i have "i = length ps" by simp
    with t assms(2) show ?thesis
      by (auto simp: placedBefore_def nth_append)
  qed
qed

lemma phasesAreWaves_snoc:
  assumes "phasesAreWaves tasks d ps"
    and "taskKey ` set p = readyKeys tasks d (taskKey ` set (concat ps))"
  shows "phasesAreWaves tasks d (ps @ [p])"
  unfolding phasesAreWaves_def
proof (intro allI impI)
  fix i
  assume i: "i < length (ps @ [p])"
  show "taskKey ` set ((ps @ [p]) ! i) = readyKeys tasks d (placedBefore (ps @ [p]) i)"
  proof (cases "i < length ps")
    case True
    with assms(1) show ?thesis
      by (simp add: phasesAreWaves_def placedBefore_def nth_append)
  next
    case False
    with i have "i = length ps" by simp
    with assms(2) show ?thesis
      by (simp add: placedBefore_def nth_append)
  qed
qed

lemma planInv_step:
  assumes inv: "planInv tasks d prio (c, ip, ps, lg)"
    and ne: "newPhase d c tasks ip \<noteq> []"
  shows "planInv tasks d prio
           (fold completeTask (sortPhase prio (newPhase d c tasks ip)) c,
            fold releaseTask (sortPhase prio (newPhase d c tasks ip)) (newInProgress d c tasks ip),
            ps @ [sortPhase prio (newPhase d c tasks ip)], lg)"
proof -
  let ?P = "newPhase d c tasks ip"
  let ?S = "sortPhase prio ?P"
  from inv have ip: "ip = []" and lg: "lg = []" and pf: "planFacts tasks d prio c ps"
    by (simp_all add: planInv_def)
  from pf have dc: "distinct c"
    and sc: "set c = taskKey ` set (concat ps)" and sub: "set (concat ps) \<subseteq> set tasks"
    and dk: "distinct (map taskKey (concat ps))" and res: "\<forall>k\<in>set c. resolvable tasks d k"
    and de: "depsEarlier d ps"
    and po: "\<forall>p\<in>set ps. p \<noteq> [] \<and> (\<exists>q. subseq q tasks \<and> p = sortPhase prio q)"
    and fi: "\<forall>t\<in>set (concat ps). firstWithKey tasks t"
    and wa: "phasesAreWaves tasks d ps"
    unfolding planFacts_def by blast+
  have sseq: "subseq ?P tasks" by (rule newPhase_subseq)
  have Psub: "set ?P \<subseteq> set tasks" using sseq by (auto intro: subseq_member)
  have q: "\<And>t. t \<in> set ?P \<Longrightarrow> taskKey t \<notin> set c \<and> set (depsList d (taskKey t)) \<subseteq> set c"
    using newPhase_qualified [of _ d c tasks ip] by blast
  have "set (fold releaseTask ?S (newInProgress d c tasks ip)) = {}"
    by (simp add: set_fold_releaseTask set_newInProgress ip)
  then have 1: "fold releaseTask ?S (newInProgress d c tasks ip) = []" by simp
  have 2: "distinct (fold completeTask ?S c)" using dc by (rule distinct_fold_completeTask)
  have 3: "set (fold completeTask ?S c) = taskKey ` set (concat (ps @ [?S]))"
    by (simp add: set_fold_completeTask sc image_Un)
  have 4: "set (concat (ps @ [?S])) \<subseteq> set tasks" using sub Psub by simp
  have keys: "set (map taskKey (concat ps)) = set c" by (simp add: sc)
  have disj: "set c \<inter> taskKey ` set ?P = {}" using q by blast
  have "distinct (map taskKey (concat ps) @ map taskKey ?S)"
    unfolding distinct_append keys
    using dk disj by (simp add: distinct_keys_sortPhase newPhase_distinct_keys)
  then have 5: "distinct (map taskKey (concat (ps @ [?S])))" by simp
  have 6: "\<forall>k\<in>set (fold completeTask ?S c). resolvable tasks d k"
  proof
    fix k assume "k \<in> set (fold completeTask ?S c)"
    then consider "k \<in> set c" | t where "t \<in> set ?P" "k = taskKey t"
      by (auto simp: set_fold_completeTask)
    then show "resolvable tasks d k"
    proof cases
      case 1
      with res show ?thesis by simp
    next
      case 2
      with Psub have "t \<in> set tasks" by auto
      moreover have "\<forall>x\<in>set (depsList d (taskKey t)). resolvable tasks d x"
        using q [OF 2(1)] res by auto
      ultimately show ?thesis unfolding 2(2) by (rule resolvable.intros)
    qed
  qed
  have 7: "depsEarlier d (ps @ [?S])"
    using de by (rule depsEarlier_snoc) (use q sc in auto)
  have 8: "\<forall>p\<in>set (ps @ [?S]). p \<noteq> [] \<and> (\<exists>q. subseq q tasks \<and> p = sortPhase prio q)"
    using po ne sseq by auto
  have 9: "\<forall>t\<in>set (concat (ps @ [?S])). firstWithKey tasks t"
  proof
    fix t assume "t \<in> set (concat (ps @ [?S]))"
    then consider "t \<in> set (concat ps)" | "t \<in> set ?P" by auto
    then show "firstWithKey tasks t"
    proof cases
      case 1
      with fi show ?thesis by blast
    next
      case 2
      then show ?thesis unfolding firstWithKey_def by (rule newPhase_first)
    qed
  qed
  have "taskKey ` set ?S = readyKeys tasks d (taskKey ` set (concat ps))"
    using newPhase_ready [of d c tasks] by (simp add: ip sc del: set_concat)
  with wa have 10: "phasesAreWaves tasks d (ps @ [?S])" by (rule phasesAreWaves_snoc)
  have "planFacts tasks d prio (fold completeTask ?S c) (ps @ [?S])"
    unfolding planFacts_def using 2 3 4 5 6 7 8 9 10 by blast
  with 1 lg show ?thesis
    unfolding planInv_def prod.case by blast
qed

lemma planLoop_final:
  "arrayDeps tasks d \<Longrightarrow> planInv tasks d prio st
     \<Longrightarrow> \<exists>st'. planLoop tasks d prio st = Inr st' \<and> planFinal tasks d prio st'"
proof (induction tasks d prio st rule: planLoop.induct)
  case (1 tasks d prio c ip ps lg)
  note arr = \<open>arrayDeps tasks d\<close>
  note inv = \<open>planInv tasks d prio (c, ip, ps, lg)\<close>
  let ?P = "newPhase d c tasks ip"
  let ?IP = "newInProgress d c tasks ip"
  show ?case
  proof (cases "length c < length tasks")
    case False
    with inv have "planFinal tasks d prio (c, ip, ps, lg)"
      by (simp add: planInv_def planFinal_def)
    with False show ?thesis by (simp add: planLoop_unfold [OF arr])
  next
    case small: True
    show ?thesis
    proof (cases "?P = []")
      case True
      from inv have ip: "ip = []" by (simp add: planInv_def)
      have "\<forall>t\<in>set tasks. taskKey t \<in> set c \<or> \<not> set (depsList d (taskKey t)) \<subseteq> set c"
      proof (intro ballI, rule ccontr)
        fix t assume "t \<in> set tasks"
          and "\<not> (taskKey t \<in> set c \<or> \<not> set (depsList d (taskKey t)) \<subseteq> set c)"
        then have "taskKey t \<in> set (newInProgress d c tasks ip)"
          by (intro newInProgress_complete) auto
        with True ip show False by (simp add: set_newInProgress)
      qed
      with small inv have "planFinal tasks d prio (c, ?IP, ps, lg @ [cycleWarning])"
        by (simp add: planInv_def planFinal_def)
      with True small show ?thesis by (simp add: planLoop_unfold [OF arr])
    next
      case False
      have scan: "scanTasks d c tasks ([], ip) = Inr (?P, ?IP)"
        using scanTasks_arrays [OF arr, of c "[]" ip] by simp
      have go: "\<not> (?P = [] \<and> length c < length tasks)" using False by simp
      have "planInv tasks d prio
           (fold completeTask (sortPhase prio ?P) c,
            fold releaseTask (sortPhase prio ?P) ?IP,
            ps @ [sortPhase prio ?P], lg)"
        using inv False by (rule planInv_step)
      with "1.IH" [OF small scan refl go arr]
      have "\<exists>st'. planLoop tasks d prio
              (fold completeTask (sortPhase prio ?P) c,
               fold releaseTask (sortPhase prio ?P) ?IP,
               ps @ [sortPhase prio ?P], lg) = Inr st' \<and> planFinal tasks d prio st'"
        by blast
      with small False show ?thesis by (simp add: planLoop_unfold [OF arr])
    qed
  qed
qed

lemma planInv_initial: "planInv tasks d prio ([], [], [], [])"
  by (simp add: planInv_def planFacts_def depsEarlier_def phasesAreWaves_def)

lemma estimatedTime_fold: "fold (\<lambda>phase acc. acc + 1000) ps n = n + 1000 * length ps"
  by (induction ps arbitrary: n) simp_all

lemma buildExecutionPlan_facts:
  assumes "arrayDeps tasks d"
  obtains c ps lg where "buildExecutionPlan tasks d prio = Inr (planOf ps, lg)"
    and "planFacts tasks d prio c ps"
    and "(lg = [] \<and> length tasks \<le> length c)
         \<or> (lg = [cycleWarning] \<and> length c < length tasks
             \<and> (\<forall>t\<in>set tasks. taskKey t \<in> set c \<or> \<not> set (depsList d (taskKey t)) \<subseteq> set c))"
proof -
  from planLoop_final [OF assms planInv_initial, of prio]
  obtain st' where run: "planLoop tasks d prio ([], [], [], []) = Inr st'"
    and fin: "planFinal tasks d prio st'" by blast
  obtain c ip ps lg where st': "st' = (c, ip, ps, lg)" by (cases st') auto
  have "buildExecutionPlan tasks d prio = Inr (planOf ps, lg)"
    by (simp add: buildExecutionPlan_def run st' planOf_def estimatedTime_fold)
  with fin show thesis
    using that [of ps lg c] by (simp add: planFinal_def st')
qed

lemma buildExecutionPlan_throws:
  assumes "\<not> arrayDeps tasks d"
  shows "buildExecutionPlan tasks d prio = Inl (TypeError ''deps.every is not a function'')"
  by (simp add: buildExecutionPlan_def planLoop_throws [OF assms])

lemma planFacts_keys_subset:
  assumes "planFacts tasks d prio c ps"
  shows "set c \<subseteq> taskKey ` set tasks"
  using assms by (auto simp: planFacts_def)

lemma planFacts_length:
  assumes "planFacts tasks d prio c ps"
  shows "length (concat ps) = length c"
proof -
  from assms have dc: "distinct c" and sc: "set c = set (map taskKey (concat ps))"
    and dk: "distinct (map taskKey (concat ps))"
    by (simp_all add: planFacts_def)
  have "length c = card (set c)" using dc by (simp add: distinct_card)
  also have "\<dots> = card (set (map taskKey (concat ps)))" by (simp only: sc)
  also have "\<dots> = length (map taskKey (concat ps))" using dk by (rule distinct_card)
  finally show ?thesis by simp
qed

lemma planFacts_all_placed:
  assumes pf: "planFacts tasks d prio c ps" and full: "length tasks \<le> length c"
  shows "set c = taskKey ` set tasks"
proof (rule card_seteq)
  show "finite (taskKey ` set tasks)" by simp
  show "set c \<subseteq> taskKey ` set tasks" using pf by (rule planFacts_keys_subset)
  have "card (taskKey ` set tasks) \<le> card (set tasks)" by (rule card_image_le) simp
  also have "\<dots> \<le> length tasks" by (rule card_length)
  also note full
  also have "length c = card (set c)"
  proof -
    from pf have "distinct c" by (simp add: planFacts_def)
    then show ?thesis by (simp add: distinct_card)
  qed
  finally show "card (taskKey ` set tasks) \<le> card (set c)" .
qed

lemma resolvable_key: "resolvable tasks d k \<Longrightarrow> k \<in> taskKey ` set tasks"
  by (induction rule: resolvable.induct) simp

lemma resolvable_deps:
  "resolvable tasks d k \<Longrightarrow> \<forall>dep\<in>set (depsList d k). resolvable tasks d dep"
  by (induction rule: resolvable.induct) simp

lemma depRel_iff: "(dep, k) \<in> depRel tasks d \<longleftrightarrow> k \<in> taskKey ` set tasks \<and> dep \<in> set (depsList d k)"
  by (auto simp: depRel_def)

lemma resolvable_no_cycle: "resolvable tasks d k \<Longrightarrow> (k, k) \<notin> (depRel tasks d)\<^sup>+"
proof (induction rule: resolvable.induct)
  case (1 t)
  show ?case
  proof
    assume "(taskKey t, taskKey t) \<in> (depRel tasks d)\<^sup>+"
    then obtain z where kz: "(taskKey t, z) \<in> (depRel tasks d)\<^sup>*"
      and zk: "(z, taskKey t) \<in> depRel tasks d"
      by (blast dest: tranclD2)
    from zk have "z \<in> set (depsList d (taskKey t))" by (simp add: depRel_iff)
    with "1.IH" have "(z, z) \<notin> (depRel tasks d)\<^sup>+" by simp
    moreover from zk kz have "(z, z) \<in> (depRel tasks d)\<^sup>+" by (rule rtrancl_into_trancl2)
    ultimately show False by simp
  qed
qed

lemma unresolvable_exists:
  assumes "\<not> acyclic (depRel tasks d) \<or> \<not> depsClosed tasks d"
  shows "\<exists>t\<in>set tasks. \<not> resolvable tasks d (taskKey t)"
  using assms
proof
  assume "\<not> acyclic (depRel tasks d)"
  then obtain x where x: "(x, x) \<in> (depRel tasks d)\<^sup>+" by (auto simp: acyclic_def)
  then obtain z where "(z, x) \<in> depRel tasks d" by (blast dest: tranclD2)
  then obtain t where "t \<in> set tasks" "x = taskKey t" by (auto simp: depRel_iff)
  with x resolvable_no_cycle [of tasks d x] show ?thesis by blast
next
  assume "\<not> depsClosed tasks d"
  then obtain t dep where t: "t \<in> set tasks" and dep: "dep \<in> set (depsList d (taskKey t))"
    and out: "dep \<notin> taskKey ` set tasks"
    by (auto simp: depsClosed_def)
  have "\<not> resolvable tasks d (taskKey t)"
  proof
    assume "resolvable tasks d (taskKey t)"
    with dep have "resolvable tasks d dep" by (blast dest: resolvable_deps)
    with out show False by (blast dest: resolvable_key)
  qed
  with t show ?thesis by blast
qed

lemma stuck_not_resolvable:
  assumes "(k, k) \<in> (depRel tasks d)\<^sup>+ \<or> \<not> set (depsList d k) \<subseteq> taskKey ` set tasks"
  shows "\<not> resolvable tasks d k"
proof
  assume r: "resolvable tasks d k"
  from assms show False
  proof
    assume "(k, k) \<in> (depRel tasks d)\<^sup>+"
    with resolvable_no_cycle [OF r] show False by simp
  next
    assume "\<not> set (depsList d k) \<subseteq> taskKey ` set tasks"
    then obtain dep where "dep \<in> set (depsList d k)" "dep \<notin> taskKey ` set tasks" by blast
    with resolvable_deps [OF r] resolvable_key [of tasks d dep] show False by blast
  qed
qed

text \<open>
  When the loop is left, the keys placed are exactly the resolvable ones: after a stall
  as well as after a full run.
\<close>

lemma resolvable_placed:
  assumes stall: "\<forall>t\<in>set tasks. taskKey t \<in> set c \<or> \<not> set (depsList d (taskKey t)) \<subseteq> set c"
  shows "resolvable tasks d k \<Longrightarrow> k \<in> set c"
proof (induction rule: resolvable.induct)
  case (1 t)
  then have "set (depsList d (taskKey t)) \<subseteq> set c" by blast
  with stall \<open>t \<in> set tasks\<close> show ?case by blast
qed

lemma plan_keys_resolvable:
  assumes pf: "planFacts tasks d prio c ps"
    and fin: "length tasks \<le> length c
         \<or> (\<forall>t\<in>set tasks. taskKey t \<in> set c \<or> \<not> set (depsList d (taskKey t)) \<subseteq> set c)"
  shows "taskKey ` set (concat ps) = {k. resolvable tasks d k}"
proof -
  from pf have res: "\<forall>k\<in>set c. resolvable tasks d k"
    and sc: "set c = taskKey ` set (concat ps)"
    unfolding planFacts_def by blast+
  have "resolvable tasks d k \<Longrightarrow> k \<in> set c" for k
    using fin
  proof
    assume "length tasks \<le> length c"
    with pf have "set c = taskKey ` set tasks" by (rule planFacts_all_placed)
    moreover assume "resolvable tasks d k"
    ultimately show "k \<in> set c" by (simp add: resolvable_key)
  next
    assume "\<forall>t\<in>set tasks. taskKey t \<in> set c \<or> \<not> set (depsList d (taskKey t)) \<subseteq> set c"
    moreover assume "resolvable tasks d k"
    ultimately show "k \<in> set c" by (rule resolvable_placed)
  qed
  with res have "set c = {k. resolvable tasks d k}" by blast
  then show ?thesis unfolding sc .
qed

lemma planOf_fields:
  "phases (planOf ps) = ps"
  "estimatedTime (planOf ps) = 1000 * length ps"
  "requiredAgents (planOf ps) = mathMax (map length ps)"
  by (simp_all add: planOf_def)

lemma planFacts_ordered:
  assumes pf: "planFacts tasks d prio c ps" and num: "numericPriorities tasks prio"
  shows "\<forall>p\<in>set ps. phaseOrdered prio tasks p"
proof
  fix p assume "p \<in> set ps"
  from pf have "\<forall>p\<in>set ps. p \<noteq> [] \<and> (\<exists>q. subseq q tasks \<and> p = sortPhase prio q)"
    unfolding planFacts_def by blast
  with \<open>p \<in> set ps\<close> obtain q where "subseq q tasks" and p: "p = sortPhase prio q"
    by blast
  from this(1) num show "phaseOrdered prio tasks p"
    unfolding p by (rule phaseOrdered_sortPhase)
qed

text \<open>
  Claim C1, as the code has it. \<^verbatim>\<open>buildExecutionPlan\<close> is a total function: the loop
  ends on every input. Let every dependency lookup of a task find an array. When the
  dependency map has a cycle among the tasks, or a task depends on an id that no task of
  the list carries, the method raises no error: it logs the warning once, leaves the
  loop and returns the plan built up to that point. The phases of this plan hold, once
  each, the first task of every resolvable key and no other task; no phase is empty;
  each phase holds the tasks of exactly the keys that are ready once the phases before it
  are placed; when every priority looked up is a number, each phase is in descending
  order of priority, the tasks of one priority in the order of the list; the estimated
  time is 1000 for each phase and the number of agents the length of the longest phase.
  So the phases hold fewer tasks than the list, and none of the tasks that lie on a cycle
  or have a dependency that no task carries.
\<close>

theorem buildExecutionPlan_cycle_partial_plan:
  assumes "arrayDeps tasks d"
    and "\<not> acyclic (depRel tasks d) \<or> \<not> depsClosed tasks d"
  shows "\<exists>pl. buildExecutionPlan tasks d prio = Inr (pl, [cycleWarning])
    \<and> taskKey ` set (concat (phases pl)) = {k. resolvable tasks d k}
    \<and> (\<forall>t\<in>set (concat (phases pl)). firstWithKey tasks t)
    \<and> distinct (map taskKey (concat (phases pl)))
    \<and> [] \<notin> set (phases pl)
    \<and> phasesAreWaves tasks d (phases pl)
    \<and> (numericPriorities tasks prio \<longrightarrow> (\<forall>p\<in>set (phases pl). phaseOrdered prio tasks p))
    \<and> estimatedTime pl = 1000 * length (phases pl)
    \<and> requiredAgents pl = mathMax (map length (phases pl))
    \<and> length (concat (phases pl)) < length tasks
    \<and> (\<forall>t\<in>set tasks.
          (taskKey t, taskKey t) \<in> (depRel tasks d)\<^sup>+
            \<or> \<not> set (depsList d (taskKey t)) \<subseteq> taskKey ` set tasks
          \<longrightarrow> t \<notin> set (concat (phases pl)))"
proof -
  obtain c ps lg where run: "buildExecutionPlan tasks d prio = Inr (planOf ps, lg)"
    and pf: "planFacts tasks d prio c ps"
    and fin: "(lg = [] \<and> length tasks \<le> length c)
         \<or> (lg = [cycleWarning] \<and> length c < length tasks
             \<and> (\<forall>t\<in>set tasks. taskKey t \<in> set c \<or> \<not> set (depsList d (taskKey t)) \<subseteq> set c))"
    by (rule buildExecutionPlan_facts [OF assms(1)])
  from pf have res: "\<forall>k\<in>set c. resolvable tasks d k"
    and sc: "set c = taskKey ` set (concat ps)"
    and dk: "distinct (map taskKey (concat ps))"
    and po: "\<forall>p\<in>set ps. p \<noteq> [] \<and> (\<exists>q. subseq q tasks \<and> p = sortPhase prio q)"
    and fi: "\<forall>t\<in>set (concat ps). firstWithKey tasks t"
    and wa: "phasesAreWaves tasks d ps"
    unfolding planFacts_def by blast+
  from unresolvable_exists [OF assms(2)] obtain t
    where t: "t \<in> set tasks" and bad: "\<not> resolvable tasks d (taskKey t)" by blast
  have "\<not> length tasks \<le> length c"
  proof
    assume "length tasks \<le> length c"
    with pf have "set c = taskKey ` set tasks" by (rule planFacts_all_placed)
    with t res bad show False by blast
  qed
  with fin have warned: "lg = [cycleWarning]"
    and short: "length c < length tasks"
    and stall: "\<forall>t\<in>set tasks. taskKey t \<in> set c \<or> \<not> set (depsList d (taskKey t)) \<subseteq> set c"
    by auto
  have 1: "buildExecutionPlan tasks d prio = Inr (planOf ps, [cycleWarning])"
    using run warned by simp
  have 2: "taskKey ` set (concat ps) = {k. resolvable tasks d k}"
    using pf stall by (intro plan_keys_resolvable) blast+
  have 5: "[] \<notin> set ps" using po by blast
  have 7: "numericPriorities tasks prio \<longrightarrow> (\<forall>p\<in>set ps. phaseOrdered prio tasks p)"
    using planFacts_ordered [OF pf] by blast
  from short planFacts_length [OF pf] have 10: "length (concat ps) < length tasks" by simp
  have 11: "\<forall>t\<in>set tasks.
          (taskKey t, taskKey t) \<in> (depRel tasks d)\<^sup>+
            \<or> \<not> set (depsList d (taskKey t)) \<subseteq> taskKey ` set tasks
          \<longrightarrow> t \<notin> set (concat ps)"
  proof (intro ballI impI)
    fix u assume "u \<in> set tasks"
      and "(taskKey u, taskKey u) \<in> (depRel tasks d)\<^sup>+
            \<or> \<not> set (depsList d (taskKey u)) \<subseteq> taskKey ` set tasks"
    then have "\<not> resolvable tasks d (taskKey u)" by (intro stuck_not_resolvable)
    with res have "taskKey u \<notin> set c" by blast
    with sc show "u \<notin> set (concat ps)" by blast
  qed
  show ?thesis
  proof (intro exI [of _ "planOf ps"] conjI)
    show "buildExecutionPlan tasks d prio = Inr (planOf ps, [cycleWarning])" by (rule 1)
    show "taskKey ` set (concat (phases (planOf ps))) = {k. resolvable tasks d k}"
      unfolding planOf_fields by (rule 2)
    show "\<forall>t\<in>set (concat (phases (planOf ps))). firstWithKey tasks t"
      unfolding planOf_fields by (rule fi)
    show "distinct (map taskKey (concat (phases (planOf ps))))"
      unfolding planOf_fields by (rule dk)
    show "[] \<notin> set (phases (planOf ps))"
      unfolding planOf_fields by (rule 5)
    show "phasesAreWaves tasks d (phases (planOf ps))"
      unfolding planOf_fields by (rule wa)
    show "numericPriorities tasks prio
            \<longrightarrow> (\<forall>p\<in>set (phases (planOf ps)). phaseOrdered prio tasks p)"
      unfolding planOf_fields by (rule 7)
    show "estimatedTime (planOf ps) = 1000 * length (phases (planOf ps))"
      unfolding planOf_fields by (rule refl)
    show "requiredAgents (planOf ps) = mathMax (map length (phases (planOf ps)))"
      unfolding planOf_fields by (rule refl)
    show "length (concat (phases (planOf ps))) < length tasks"
      unfolding planOf_fields by (rule 10)
    show "\<forall>t\<in>set tasks.
          (taskKey t, taskKey t) \<in> (depRel tasks d)\<^sup>+
            \<or> \<not> set (depsList d (taskKey t)) \<subseteq> taskKey ` set tasks
          \<longrightarrow> t \<notin> set (concat (phases (planOf ps)))"
      unfolding planOf_fields by (rule 11)
  qed
qed

lemma cyclic_example_cycle: "(''T1'', ''T1'') \<in> (depRel cyclicTasks cyclicDeps)\<^sup>+"
proof -
  have a: "(''T1'', ''T2'') \<in> depRel cyclicTasks cyclicDeps"
    by (simp add: depRel_iff cyclicTasks_def cyclicDeps_def createTask_def taskKey_def
          depsList_def depsOf_def)
  have b: "(''T2'', ''T1'') \<in> depRel cyclicTasks cyclicDeps"
    by (simp add: depRel_iff cyclicTasks_def cyclicDeps_def createTask_def taskKey_def
          depsList_def depsOf_def)
  from a b show ?thesis by (rule trancl_into_trancl2 [OF _ r_into_trancl])
qed

lemma cyclic_example_arrays: "arrayDeps cyclicTasks cyclicDeps"
  by code_simp

lemma cyclic_example_run:
  "buildExecutionPlan cyclicTasks cyclicDeps Map.empty
     = Inr (\<lparr>phases = [ [createTask ''T0'' []]], estimatedTime = 1000, requiredAgents = Num 1\<rparr>,
            [cycleWarning])"
  by code_simp

text \<open>
  The claim fails on the tasks T0, T1 and T2 of which the last two depend on each other:
  the method returns a plan, with the phase of T0.
\<close>

theorem buildExecutionPlan_cycle_counterexample:
  "(''T1'', ''T1'') \<in> (depRel cyclicTasks cyclicDeps)\<^sup>+
   \<and> buildExecutionPlan cyclicTasks cyclicDeps Map.empty
     = Inr (\<lparr>phases = [ [createTask ''T0'' []]], estimatedTime = 1000, requiredAgents = Num 1\<rparr>,
            [cycleWarning])"
  using cyclic_example_cycle cyclic_example_run by simp

theorem buildExecutionPlan_cycle_partial_plan_witness:
  "{k. resolvable cyclicTasks cyclicDeps k} = {''T0''}
   \<and> buildExecutionPlan cyclicTasks cyclicDeps Map.empty
     = Inr (\<lparr>phases = [ [createTask ''T0'' []]], estimatedTime = 1000, requiredAgents = Num 1\<rparr>,
            [cycleWarning])"
proof -
  have cyc: "\<not> acyclic (depRel cyclicTasks cyclicDeps) \<or> \<not> depsClosed cyclicTasks cyclicDeps"
    using cyclic_example_cycle by (auto simp: acyclic_def)
  from buildExecutionPlan_cycle_partial_plan [OF cyclic_example_arrays cyc, of Map.empty]
  obtain pl where run: "buildExecutionPlan cyclicTasks cyclicDeps Map.empty = Inr (pl, [cycleWarning])"
    and keys: "taskKey ` set (concat (phases pl)) = {k. resolvable cyclicTasks cyclicDeps k}"
    by (elim exE conjE)
  from run have "pl = \<lparr>phases = [ [createTask ''T0'' []]], estimatedTime = 1000,
                        requiredAgents = Num 1\<rparr>"
    by (simp add: cyclic_example_run)
  with keys have "{k. resolvable cyclicTasks cyclicDeps k} = {''T0''}"
    by (simp add: createTask_def taskKey_def)
  with cyclic_example_run show ?thesis by simp
qed

lemma scenario_run:
  "buildExecutionPlan scenarioTasks scenarioDeps scenarioPriority
     = Inr (\<lparr>phases = [ [createTask ''T3'' [], createTask ''T1'' []], [createTask ''T2'' []]],
              estimatedTime = 2000, requiredAgents = Num 2\<rparr>, [])"
  by code_simp

lemma scenario_arrays: "arrayDeps scenarioTasks scenarioDeps"
  by code_simp

lemma scenario_numeric: "numericPriorities scenarioTasks scenarioPriority"
  by code_simp

text \<open>
  When every dependency lookup finds an array and every priority looked up is a number,
  every phase of the plan is in descending order of priority, a task without an entry in
  the priority map counting as 0, and the tasks of equal priority stand in a phase in the
  order in which they stand in the task list.
\<close>

lemma phases_ordered_by_priority:
  assumes "arrayDeps tasks d" and "numericPriorities tasks prio"
  shows "\<exists>pl lg. buildExecutionPlan tasks d prio = Inr (pl, lg)
    \<and> (\<forall>p\<in>set (phases pl).
          sorted_wrt (\<lambda>a b. priorityValue prio (taskKey a) \<ge> priorityValue prio (taskKey b)) p
          \<and> (\<forall>k. subseq (filter (\<lambda>t. priorityValue prio (taskKey t) = k) p) tasks))"
proof -
  obtain c ps lg where run: "buildExecutionPlan tasks d prio = Inr (planOf ps, lg)"
    and pf: "planFacts tasks d prio c ps"
    by (rule buildExecutionPlan_facts [OF assms(1)])
  from planFacts_ordered [OF pf assms(2)]
  have "\<forall>p\<in>set (phases (planOf ps)).
          sorted_wrt (\<lambda>a b. priorityValue prio (taskKey a) \<ge> priorityValue prio (taskKey b)) p
          \<and> (\<forall>k. subseq (filter (\<lambda>t. priorityValue prio (taskKey t) = k) p) tasks)"
    unfolding planOf_fields phaseOrdered_def .
  with run show ?thesis by blast
qed

lemma priorityValue_absent:
  "priority taskId = None \<Longrightarrow> taskId \<notin> set objectPrototypeNames
     \<Longrightarrow> priorityValue priority taskId = 0"
  by (simp add: priorityValue_def priorityOf_def)

lemma inherited_example_run:
  "buildExecutionPlan inheritedTasks inheritedDeps inheritedPriority
     = Inr (\<lparr>phases = [ [createTask ''constructor'' [], createTask ''A'' []]],
              estimatedTime = 1000, requiredAgents = Num 2\<rparr>, [])"
  by code_simp

text \<open>
  Claim C8 holds for the tasks T1, T2 (which depends on T1) and T3 with priorities 5, 5
  and 9, whose plan is [ [T3, T1], [T2]]. It fails for a task that has no entry in the
  priority map and is named like a member of \<^verbatim>\<open>Object.prototype\<close>: the lookup finds
  the inherited member instead of 0, the comparator returns \<^verbatim>\<open>NaN\<close> for every pair
  with this task, and the sort leaves the pair as it stands. The task
  \<^verbatim>\<open>constructor\<close>, without a priority, stays before the task \<^verbatim>\<open>A\<close> of priority 1.
\<close>

theorem priority_order_fails_for_inherited_name:
  "inheritedTasks = [createTask ''constructor'' [], createTask ''A'' []]
   \<and> inheritedPriority ''constructor'' = None
   \<and> inheritedPriority ''A'' = Some 1
   \<and> priorityOf inheritedPriority ''constructor'' = Inherited
   \<and> comparePriority inheritedPriority (createTask ''constructor'' []) (createTask ''A'' []) = None
   \<and> comparePriority inheritedPriority (createTask ''A'' []) (createTask ''constructor'' []) = None
   \<and> buildExecutionPlan inheritedTasks inheritedDeps inheritedPriority
     = Inr (\<lparr>phases = [ [createTask ''constructor'' [], createTask ''A'' []]],
              estimatedTime = 1000, requiredAgents = Num 2\<rparr>, [])
   \<and> buildExecutionPlan scenarioTasks scenarioDeps scenarioPriority
     = Inr (\<lparr>phases = [ [createTask ''T3'' [], createTask ''T1'' []], [createTask ''T2'' []]],
              estimatedTime = 2000, requiredAgents = Num 2\<rparr>, [])"
  using inherited_example_run scenario_run
  by (simp add: inheritedTasks_def inheritedPriority_def priorityOf_def comparePriority_def
        objectPrototypeNames_def createTask_def taskKey_def)

lemma finite_depRel: "finite (depRel tasks d)"
proof (rule finite_subset)
  show "depRel tasks d \<subseteq> (\<Union>t\<in>set tasks. set (depsList d (taskKey t))) \<times> (taskKey ` set tasks)"
    by (auto simp: depRel_def)
  show "finite ((\<Union>t\<in>set tasks. set (depsList d (taskKey t))) \<times> (taskKey ` set tasks))"
    by simp
qed

lemma acyclic_progress:
  assumes ac: "acyclic (depRel tasks d)" and cl: "depsClosed tasks d"
    and sub: "set c \<subseteq> taskKey ` set tasks"
    and rest: "\<exists>t\<in>set tasks. taskKey t \<notin> set c"
  shows "\<exists>t\<in>set tasks. taskKey t \<notin> set c \<and> set (depsList d (taskKey t)) \<subseteq> set c"
proof -
  let ?Q = "taskKey ` set tasks - set c"
  have wf: "wf (depRel tasks d)" using finite_depRel ac by (rule finite_acyclic_wf)
  from rest obtain x where "x \<in> ?Q" by blast
  from wf have "\<forall>Q x. x \<in> Q \<longrightarrow> (\<exists>z\<in>Q. \<forall>y. (y, z) \<in> depRel tasks d \<longrightarrow> y \<notin> Q)"
    by (simp only: wf_eq_minimal)
  from this [rule_format, of x ?Q] \<open>x \<in> ?Q\<close>
  have "\<exists>z\<in>?Q. \<forall>y. (y, z) \<in> depRel tasks d \<longrightarrow> y \<notin> ?Q" .
  then obtain z where z: "z \<in> ?Q" and least: "\<And>y. (y, z) \<in> depRel tasks d \<Longrightarrow> y \<notin> ?Q"
    by blast
  from z obtain t where t: "t \<in> set tasks" and zt: "z = taskKey t" and nc: "taskKey t \<notin> set c"
    by blast
  have "set (depsList d (taskKey t)) \<subseteq> set c"
  proof
    fix dep assume dep: "dep \<in> set (depsList d (taskKey t))"
    with t have "(dep, z) \<in> depRel tasks d" by (simp add: depRel_iff zt)
    then have "dep \<notin> ?Q" by (rule least)
    moreover from cl t dep have "dep \<in> taskKey ` set tasks" by (auto simp: depsClosed_def)
    ultimately show "dep \<in> set c" by blast
  qed
  with t nc show ?thesis by blast
qed

lemma depsEarlier_nth:
  assumes "depsEarlier d ps" and "i < length ps" and "t \<in> set (ps ! i)"
    and "dep \<in> set (depsList d (taskKey t))"
  shows "\<exists>j<i. dep \<in> taskKey ` set (ps ! j)"
proof -
  from assms(1,2,3) have "set (depsList d (taskKey t)) \<subseteq> placedBefore ps i"
    unfolding depsEarlier_def by blast
  with assms(4) have "dep \<in> taskKey ` set (concat (take i ps))"
    unfolding placedBefore_def by blast
  then obtain p where p: "p \<in> set (take i ps)" and dp: "dep \<in> taskKey ` set p" by auto
  from p obtain j where j: "j < length (take i ps)" and pj: "take i ps ! j = p"
    by (auto simp: in_set_conv_nth)
  from j have "j < i" by simp
  moreover from j pj have "ps ! j = p" by simp
  ultimately show ?thesis using dp by blast
qed

text \<open>
  Claim C2, as the code has it. Let every dependency lookup of a task find an array. For
  a task list with pairwise different ids (or names, where ids are absent) whose
  dependency map names only tasks of the list and is acyclic, \<^verbatim>\<open>buildExecutionPlan\<close>
  returns a plan and logs no warning, the phases of the plan hold every task of the list
  exactly once, and every id in the dependency array of a task is the id of a task of a
  strictly earlier phase.
\<close>

theorem acyclic_plan_partitions_tasks:
  assumes arr: "arrayDeps tasks d"
    and dist: "distinct (map taskKey tasks)"
    and cl: "depsClosed tasks d"
    and ac: "acyclic (depRel tasks d)"
  shows "\<exists>pl. buildExecutionPlan tasks d prio = Inr (pl, [])
    \<and> mset (concat (phases pl)) = mset tasks
    \<and> distinct (concat (phases pl))
    \<and> (\<forall>i<length (phases pl). \<forall>t\<in>set (phases pl ! i).
           \<forall>dep\<in>set (depsList d (taskKey t)). \<exists>j<i. dep \<in> taskKey ` set (phases pl ! j))"
proof -
  obtain c ps lg where run: "buildExecutionPlan tasks d prio = Inr (planOf ps, lg)"
    and pf: "planFacts tasks d prio c ps"
    and fin: "(lg = [] \<and> length tasks \<le> length c)
         \<or> (lg = [cycleWarning] \<and> length c < length tasks
             \<and> (\<forall>t\<in>set tasks. taskKey t \<in> set c \<or> \<not> set (depsList d (taskKey t)) \<subseteq> set c))"
    by (rule buildExecutionPlan_facts [OF arr])
  from pf have dc: "distinct c" and sc: "set c = taskKey ` set (concat ps)"
    and sub: "set (concat ps) \<subseteq> set tasks" and dk: "distinct (map taskKey (concat ps))"
    and de: "depsEarlier d ps"
    unfolding planFacts_def by blast+
  have csub: "set c \<subseteq> taskKey ` set tasks" using pf by (rule planFacts_keys_subset)
  have nostall: "\<not> (length c < length tasks
             \<and> (\<forall>t\<in>set tasks. taskKey t \<in> set c \<or> \<not> set (depsList d (taskKey t)) \<subseteq> set c))"
  proof
    assume st: "length c < length tasks
             \<and> (\<forall>t\<in>set tasks. taskKey t \<in> set c \<or> \<not> set (depsList d (taskKey t)) \<subseteq> set c)"
    have "card (set c) = length c" using dc by (rule distinct_card)
    moreover have "card (taskKey ` set tasks) = length tasks"
      using distinct_card [OF dist] by simp
    ultimately have less: "card (set c) < card (taskKey ` set tasks)" using st by simp
    have "\<exists>t\<in>set tasks. taskKey t \<notin> set c"
    proof (rule ccontr)
      assume "\<not> (\<exists>t\<in>set tasks. taskKey t \<notin> set c)"
      then have "taskKey ` set tasks \<subseteq> set c" by blast
      then have "card (taskKey ` set tasks) \<le> card (set c)" by (intro card_mono) simp_all
      with less show False by simp
    qed
    with ac cl csub have "\<exists>t\<in>set tasks. taskKey t \<notin> set c \<and> set (depsList d (taskKey t)) \<subseteq> set c"
      by (rule acyclic_progress)
    with st show False by blast
  qed
  with fin have quiet: "lg = []" and full: "length tasks \<le> length c" by blast+
  from pf full have all: "set c = taskKey ` set tasks" by (rule planFacts_all_placed)
  from dist have inj: "inj_on taskKey (set tasks)" and dt: "distinct tasks"
    by (simp_all add: distinct_map)
  have "set tasks \<subseteq> set (concat ps)"
  proof
    fix t assume t: "t \<in> set tasks"
    then have "taskKey t \<in> set c" unfolding all by (rule imageI)
    then have "taskKey t \<in> taskKey ` set (concat ps)" unfolding sc .
    then obtain u where u: "u \<in> set (concat ps)" and ku: "taskKey u = taskKey t"
      by (auto simp del: set_concat)
    from u sub have ut: "u \<in> set tasks" by blast
    from inj ku ut t have "u = t" by (rule inj_onD)
    with u show "t \<in> set (concat ps)" by simp
  qed
  with sub have seteq: "set (concat ps) = set tasks" by blast
  from dk have dps: "distinct (concat ps)" by (simp add: distinct_map)
  have ms: "mset (concat ps) = mset tasks"
    using seteq set_eq_iff_mset_eq_distinct [OF dps dt] by (simp del: set_concat)
  have ord: "\<forall>i<length ps. \<forall>t\<in>set (ps ! i). \<forall>dep\<in>set (depsList d (taskKey t)).
             \<exists>j<i. dep \<in> taskKey ` set (ps ! j)"
  proof (intro allI impI ballI)
    fix i t dep
    assume "i < length ps" and "t \<in> set (ps ! i)" and "dep \<in> set (depsList d (taskKey t))"
    with de show "\<exists>j<i. dep \<in> taskKey ` set (ps ! j)" by (rule depsEarlier_nth)
  qed
  show ?thesis
  proof (intro exI [of _ "planOf ps"] conjI)
    show "buildExecutionPlan tasks d prio = Inr (planOf ps, [])" using run quiet by simp
    show "mset (concat (phases (planOf ps))) = mset tasks"
      unfolding planOf_fields by (rule ms)
    show "distinct (concat (phases (planOf ps)))"
      unfolding planOf_fields by (rule dps)
    show "\<forall>i<length (phases (planOf ps)). \<forall>t\<in>set (phases (planOf ps) ! i).
           \<forall>dep\<in>set (depsList d (taskKey t)).
             \<exists>j<i. dep \<in> taskKey ` set (phases (planOf ps) ! j)"
      unfolding planOf_fields by (rule ord)
  qed
qed

lemma scenario_depRel: "depRel scenarioTasks scenarioDeps = {(''T1'', ''T2'')}"
proof (rule set_eqI)
  fix p :: "string \<times> string"
  obtain dep k where p: "p = (dep, k)" by (cases p)
  show "p \<in> depRel scenarioTasks scenarioDeps \<longleftrightarrow> p \<in> {(''T1'', ''T2'')}"
    unfolding p depRel_iff
    by (auto simp: scenarioTasks_def scenarioDeps_def createTask_def taskKey_def depsList_def
             depsOf_def objectPrototypeNames_def split: if_splits)
qed

lemma scenario_acyclic: "acyclic (depRel scenarioTasks scenarioDeps)"
  unfolding scenario_depRel by (simp add: acyclic_insert wf_acyclic)

lemma scenario_closed: "depsClosed scenarioTasks scenarioDeps"
  by code_simp

lemma scenario_distinct: "distinct (map taskKey scenarioTasks)"
  by (simp add: scenarioTasks_def createTask_def taskKey_def)

theorem acyclic_plan_partitions_tasks_witness:
  "\<exists>pl. buildExecutionPlan scenarioTasks scenarioDeps scenarioPriority = Inr (pl, [])
     \<and> mset (concat (phases pl)) = mset scenarioTasks
     \<and> distinct (concat (phases pl))"
  using acyclic_plan_partitions_tasks [OF scenario_arrays scenario_distinct scenario_closed
          scenario_acyclic, of scenarioPriority]
  by blast

lemma dangling_depRel: "depRel danglingTasks danglingDeps = {(''T9'', ''T1'')}"
proof (rule set_eqI)
  fix p :: "string \<times> string"
  obtain dep k where p: "p = (dep, k)" by (cases p)
  show "p \<in> depRel danglingTasks danglingDeps \<longleftrightarrow> p \<in> {(''T9'', ''T1'')}"
    unfolding p depRel_iff
    by (auto simp: danglingTasks_def danglingDeps_def createTask_def taskKey_def depsList_def
             depsOf_def objectPrototypeNames_def split: if_splits)
qed

lemma dangling_acyclic: "acyclic (depRel danglingTasks danglingDeps)"
  unfolding dangling_depRel by (simp add: acyclic_insert wf_acyclic)

lemma sameName_depRel: "depRel sameNameTasks Map.empty = {}"
  by (auto simp: depRel_def depsList_def depsOf_def sameNameTasks_def createTask_def taskKey_def
        objectPrototypeNames_def)

lemma sameName_acyclic: "acyclic (depRel sameNameTasks Map.empty)"
  unfolding sameName_depRel by (simp add: wf_acyclic)

lemma dangling_run:
  "buildExecutionPlan danglingTasks danglingDeps Map.empty
     = Inr (\<lparr>phases = [], estimatedTime = 0, requiredAgents = NegInfinity\<rparr>, [cycleWarning])"
  by code_simp

lemma sameName_run:
  "buildExecutionPlan sameNameTasks Map.empty Map.empty
     = Inr (\<lparr>phases = [ [createTask ''Build'' [''compilation'']]], estimatedTime = 1000,
              requiredAgents = Num 1\<rparr>, [cycleWarning])"
  by code_simp

text \<open>
  Without these conditions the claim fails. The dependency map that names the id
  \<^verbatim>\<open>T9\<close> is acyclic, and the plan has no phase, so the task is in none. Of the two
  tasks of one name the plan holds the first only.
\<close>

theorem acyclic_plan_omits_task_counterexample:
  "acyclic (depRel danglingTasks danglingDeps)
   \<and> danglingTasks = [createTask ''T1'' []]
   \<and> buildExecutionPlan danglingTasks danglingDeps Map.empty
       = Inr (\<lparr>phases = [], estimatedTime = 0, requiredAgents = NegInfinity\<rparr>, [cycleWarning])
   \<and> acyclic (depRel sameNameTasks Map.empty)
   \<and> sameNameTasks = [createTask ''Build'' [''compilation''], createTask ''Build'' [''bundling'']]
   \<and> buildExecutionPlan sameNameTasks Map.empty Map.empty
       = Inr (\<lparr>phases = [ [createTask ''Build'' [''compilation'']]], estimatedTime = 1000,
                requiredAgents = Num 1\<rparr>, [cycleWarning])"
  using dangling_acyclic dangling_run sameName_acyclic sameName_run
  by (simp add: danglingTasks_def sameNameTasks_def)

text \<open>
  A task named \<^verbatim>\<open>constructor\<close> with the default dependency map \<^verbatim>\<open>{}\<close>: the method
  throws, as it does whenever the key of a task is the name of a member of
  \<^verbatim>\<open>Object.prototype\<close> for which the dependency map has no entry of its own.
\<close>

lemma inherited_key_throws:
  "buildExecutionPlan [createTask ''constructor'' []] Map.empty Map.empty
     = Inl (TypeError ''deps.every is not a function'')"
  by code_simp

section \<open>Agent selection\<close>

lemma createDynamicAgent_agent:
  "fst (createDynamicAgent st config) =
     \<lparr>a_id = ''agent_'' @ showNat (agentIdCounter st),
      a_name = orElse (cfg_name config) (''agent_'' @ showNat (agentIdCounter st)),
      a_type = orElse (cfg_type config) ''worker'',
      a_capabilities = (case cfg_capabilities config of None \<Rightarrow> [] | Some cs \<Rightarrow> cs),
      a_status = ''idle'', a_tasks = [],
      a_performance = \<lparr>c_tasksCompleted = 0, c_avgExecutionTime = 0, c_successRate = 100\<rparr>\<rparr>"
  by (simp add: createDynamicAgent_def Let_def)

lemma createDynamicAgent_state:
  "snd (createDynamicAgent st config) =
     st\<lparr>agents := agentsSet (agents st) (fst (createDynamicAgent st config)),
        agentIdCounter := agentIdCounter st + 1\<rparr>"
  by (simp add: createDynamicAgent_def Let_def)

lemma agentsSet_member: "agent \<in> set (agentsSet registry agent)"
  by (auto simp: agentsSet_def)

lemma foldl_fasterAgent_member: "foldl fasterAgent first others \<in> set (first # others)"
proof (induction others arbitrary: first)
  case Nil
  show ?case by simp
next
  case (Cons a others)
  have "foldl fasterAgent (fasterAgent first a) others \<in> set (fasterAgent first a # others)"
    by (rule Cons.IH)
  moreover have "fasterAgent first a = first \<or> fasterAgent first a = a"
    by (simp add: fasterAgent_def)
  ultimately show ?case by auto
qed

lemma selectBestAgent_cases:
  "(\<exists>cfg. cfg_capabilities cfg = Some (capabilitiesOrGeneral task)
          \<and> selectBestAgent st task
              = (Some (fst (createDynamicAgent st cfg)), snd (createDynamicAgent st cfg))
          \<and> filter (isCompatible task) (filter (\<lambda>a. a_status a = ''idle'') (agents st)) = [])
   \<or> (\<exists>first others.
          filter (isCompatible task) (filter (\<lambda>a. a_status a = ''idle'') (agents st)) = first # others
          \<and> selectBestAgent st task = (Some (foldl fasterAgent first others), st))"
proof (cases "filter (\<lambda>a. a_status a = ''idle'') (agents st) = []")
  case True
  let ?cfg = "\<lparr>cfg_name = Some (''Worker-'' @ showNat (agentIdCounter st)),
                 cfg_type = Some ''worker'',
                 cfg_capabilities = Some (capabilitiesOrGeneral task)\<rparr>"
  from True have "selectBestAgent st task
              = (Some (fst (createDynamicAgent st ?cfg)), snd (createDynamicAgent st ?cfg))"
    by (simp add: selectBestAgent_def Let_def split: prod.splits)
  moreover have "cfg_capabilities ?cfg = Some (capabilitiesOrGeneral task)" by simp
  moreover from True
  have "filter (isCompatible task) (filter (\<lambda>a. a_status a = ''idle'') (agents st)) = []"
    by simp
  ultimately show ?thesis by blast
next
  case avail: False
  show ?thesis
  proof (cases "filter (isCompatible task) (filter (\<lambda>a. a_status a = ''idle'') (agents st))")
    case Nil
    let ?cfg = "\<lparr>cfg_name = Some (''Specialist-'' @ showNat (agentIdCounter st)),
                 cfg_type = Some ''specialist'',
                 cfg_capabilities = Some (capabilitiesOrGeneral task)\<rparr>"
    from avail Nil have "selectBestAgent st task
              = (Some (fst (createDynamicAgent st ?cfg)), snd (createDynamicAgent st ?cfg))"
      by (simp add: selectBestAgent_def Let_def split: prod.splits)
    moreover have "cfg_capabilities ?cfg = Some (capabilitiesOrGeneral task)" by simp
    ultimately show ?thesis using Nil by blast
  next
    case (Cons first others)
    with avail have "selectBestAgent st task = (Some (foldl fasterAgent first others), st)"
      by (simp add: selectBestAgent_def Let_def)
    with Cons show ?thesis by blast
  qed
qed

lemma selectBestAgent_idle:
  "\<exists>a. fst (selectBestAgent st task) = Some a \<and> a_status a = ''idle''"
proof -
  from selectBestAgent_cases [of task st] show ?thesis
  proof (elim disjE exE conjE)
    fix cfg
    assume "selectBestAgent st task
              = (Some (fst (createDynamicAgent st cfg)), snd (createDynamicAgent st cfg))"
    then show ?thesis by (simp add: createDynamicAgent_agent)
  next
    fix first others
    assume f: "filter (isCompatible task) (filter (\<lambda>a. a_status a = ''idle'') (agents st))
                 = first # others"
      and s: "selectBestAgent st task = (Some (foldl fasterAgent first others), st)"
    have "foldl fasterAgent first others \<in> set (first # others)"
      by (rule foldl_fasterAgent_member)
    then have "foldl fasterAgent first others
                 \<in> set (filter (isCompatible task) (filter (\<lambda>a. a_status a = ''idle'') (agents st)))"
      by (simp only: f)
    then have "a_status (foldl fasterAgent first others) = ''idle''" by simp
    with s show ?thesis by simp
  qed
qed

lemma assignTask_Some:
  assumes "fst (assignTask ms task) = Some agentId"
  shows "\<exists>a. master_selectBestAgent (m_agents ms) task = Some a \<and> m_id a = agentId
             \<and> m_status a = ''idle''"
  using assms by (auto simp: assignTask_def split: option.splits if_splits)

text \<open>
  Claim C9, as the code has it. When no idle agent of the registry has all the required
  capabilities of a task, \<^verbatim>\<open>selectBestAgent\<close> creates an agent, registers it and
  returns it; the agent is idle and its capabilities are the \<^verbatim>\<open>requiredCapabilities\<close>
  of the task as they stand, or \<^verbatim>\<open>['general']\<close> when the task has no
  \<^verbatim>\<open>requiredCapabilities\<close> field. In particular the selector returns an agent, so the
  caller never fails the task for lack of one.
\<close>

theorem spawn_when_no_compatible_idle_agent:
  assumes "\<not> (\<exists>a\<in>set (agents st). a_status a = ''idle'' \<and> isCompatible task a)"
  shows "\<exists>a st'. selectBestAgent st task = (Some a, st')
           \<and> a_capabilities a
               = (case t_requiredCapabilities task of None \<Rightarrow> [''general''] | Some caps \<Rightarrow> caps)
           \<and> a_status a = ''idle''
           \<and> a_id a = ''agent_'' @ showNat (agentIdCounter st)
           \<and> a \<in> set (agents st')
           \<and> agentIdCounter st' = agentIdCounter st + 1"
proof -
  from assms
  have none: "filter (isCompatible task) (filter (\<lambda>a. a_status a = ''idle'') (agents st)) = []"
    by (auto simp: filter_empty_conv)
  with selectBestAgent_cases [of task st] obtain cfg
    where cfg: "cfg_capabilities cfg = Some (capabilitiesOrGeneral task)"
      and sel: "selectBestAgent st task
              = (Some (fst (createDynamicAgent st cfg)), snd (createDynamicAgent st cfg))"
    by auto
  let ?a = "fst (createDynamicAgent st cfg)" and ?st = "snd (createDynamicAgent st cfg)"
  have "a_capabilities ?a
          = (case t_requiredCapabilities task of None \<Rightarrow> [''general''] | Some caps \<Rightarrow> caps)"
    by (simp add: createDynamicAgent_agent cfg capabilitiesOrGeneral_def)
  moreover have "a_status ?a = ''idle''" by (simp add: createDynamicAgent_agent)
  moreover have "a_id ?a = ''agent_'' @ showNat (agentIdCounter st)"
    by (simp add: createDynamicAgent_agent)
  moreover have "?a \<in> set (agents ?st)"
    by (simp add: createDynamicAgent_state agentsSet_member)
  moreover have "agentIdCounter ?st = agentIdCounter st + 1"
    by (simp add: createDynamicAgent_state)
  ultimately show ?thesis using sel by blast
qed

text \<open>
  A task that requires \<^verbatim>\<open>render\<close>, with one idle agent that lacks it: a specialist
  with exactly this capability is created.
\<close>

lemma render_selection:
  "selectBestAgent (newController\<lparr>agents := [lintAgent], agentIdCounter := 2\<rparr>)
       (createTask ''Render page'' [''render''])
     = (Some \<lparr>a_id = ''agent_2'', a_name = ''Specialist-2'', a_type = ''specialist'',
               a_capabilities = [''render''], a_status = ''idle'', a_tasks = [],
               a_performance = \<lparr>c_tasksCompleted = 0, c_avgExecutionTime = 0,
                                  c_successRate = 100\<rparr>\<rparr>,
        newController\<lparr>agents := [lintAgent,
             \<lparr>a_id = ''agent_2'', a_name = ''Specialist-2'', a_type = ''specialist'',
               a_capabilities = [''render''], a_status = ''idle'', a_tasks = [],
               a_performance = \<lparr>c_tasksCompleted = 0, c_avgExecutionTime = 0,
                                  c_successRate = 100\<rparr>\<rparr>], agentIdCounter := 3\<rparr>)"
  by code_simp

theorem spawn_when_no_compatible_idle_agent_witness:
  "map_option a_capabilities
     (fst (selectBestAgent (newController\<lparr>agents := [lintAgent], agentIdCounter := 2\<rparr>)
             (createTask ''Render page'' [''render''])))
     = Some [''render'']"
proof -
  have "\<not> (\<exists>a\<in>set (agents (newController\<lparr>agents := [lintAgent], agentIdCounter := 2\<rparr>)).
            a_status a = ''idle'' \<and> isCompatible (createTask ''Render page'' [''render'']) a)"
    by (simp add: newController_def lintAgent_def isCompatible_def createTask_def)
  from spawn_when_no_compatible_idle_agent [OF this]
  show ?thesis by (auto simp: createTask_def)
qed

text \<open>
  A task whose \<^verbatim>\<open>requiredCapabilities\<close> is the empty array, as \<^verbatim>\<open>createTask\<close> makes
  it by default, and an empty registry: the new agent has no capability, not the generic
  one.
\<close>

theorem spawn_empty_capabilities_counterexample:
  "t_requiredCapabilities (createTask ''Sample Task'' []) = Some []
   \<and> agents newController = []
   \<and> map_option a_capabilities (fst (selectBestAgent newController (createTask ''Sample Task'' [])))
       = Some []
   \<and> map_option a_capabilities (fst (selectBestAgent newController (createTask ''Sample Task'' [])))
       \<noteq> Some [''general'']"
  by (simp add: createTask_def newController_def selectBestAgent_def createDynamicAgent_def
        capabilitiesOrGeneral_def Let_def)

text \<open>
  Claim C5, as the code has it. The agent that \<^verbatim>\<open>selectBestAgent\<close> of the controller
  returns is idle, whether it was in the registry or is new. \<^verbatim>\<open>selectBestAgent\<close> of
  the master orchestrator only prefers idle agents, by 3 points of the score; it is
  \<^verbatim>\<open>assignTask\<close> that checks the status, and it hands a task to the selected agent
  only when this agent is idle.
\<close>

theorem selected_agent_idle:
  "(\<exists>a. fst (selectBestAgent st task) = Some a \<and> a_status a = ''idle'')
   \<and> (fst (assignTask ms mtask) = Some agentId \<longrightarrow>
        (\<exists>a. master_selectBestAgent (m_agents ms) mtask = Some a \<and> m_id a = agentId
              \<and> m_status a = ''idle''))"
  using selectBestAgent_idle [of st task] assignTask_Some [of ms mtask agentId] by blast

lemma landingPage_assigned: "fst (assignTask initialMaster landingPage) = Some ''frontend''"
  by code_simp

theorem selected_agent_idle_witness:
  "\<exists>a. master_selectBestAgent (m_agents initialMaster) landingPage = Some a
        \<and> m_id a = ''frontend'' \<and> m_status a = ''idle''"
  using selected_agent_idle [of newController "createTask ''Render page'' [''render'']"
          initialMaster landingPage "''frontend''"] landingPage_assigned
  by blast

text \<open>
  With the first agent at work the master's selector still returns it: its score, 34,
  is above the 18 of the idle agent.
\<close>

theorem master_selects_working_agent_counterexample:
  "map_option m_status
     (master_selectBestAgent [frontendAgent\<lparr>m_status := ''working''\<rparr>, designAgent] landingPage)
     = Some ''working''"
  by code_simp

section \<open>Failure and retry\<close>

text \<open>
  What \<^verbatim>\<open>handleTaskFailure\<close> does to the queue: a task whose \<^verbatim>\<open>retries\<close> is a number
  below 3 goes to the front of the queue with the count raised and the id of the failing
  agent appended to \<^verbatim>\<open>excludeAgents\<close>; a task at 3 or more, or without the field, is
  not queued again. The selector gives the same answer whatever \<^verbatim>\<open>excludeAgents\<close>
  holds.
\<close>

lemma handleTaskFailure_queue:
  assumes "m_performanceMetrics ms (m_id agent) = Some metrics"
  shows "\<exists>ms'. handleTaskFailure ms agent task = Inr ms'
           \<and> m_agents ms' = m_agents ms
           \<and> m_taskQueue ms'
               = (case mt_retries task of
                    None \<Rightarrow> m_taskQueue ms
                  | Some r \<Rightarrow> if r < 3 then retryCandidate agent task # m_taskQueue ms
                              else m_taskQueue ms)"
  using assms
  by (cases "mt_retries task") (simp_all add: handleTaskFailure_def retriesBelowLimit_def Let_def)

lemma retryCandidate_fields:
  "mt_retries (retryCandidate agent task)
     = Some ((case mt_retries task of None \<Rightarrow> 0 | Some r \<Rightarrow> r) + 1)"
  "mt_excludeAgents (retryCandidate agent task)
     = Some ((case mt_excludeAgents task of None \<Rightarrow> [] | Some ex \<Rightarrow> ex) @ [m_id agent])"
  by (simp_all add: retryCandidate_def)

lemma master_selectBestAgent_ignores_exclusions:
  "master_selectBestAgent registry (task\<lparr>mt_excludeAgents := ex, mt_retries := r\<rparr>)
     = master_selectBestAgent registry task"
proof -
  have "agentScore (task\<lparr>mt_excludeAgents := ex, mt_retries := r\<rparr>) = agentScore task"
    by (rule ext) (simp add: agentScore_def)
  then have "considerAgent (task\<lparr>mt_excludeAgents := ex, mt_retries := r\<rparr>) = considerAgent task"
    by (intro ext) (simp add: considerAgent_def)
  then show ?thesis by (simp add: master_selectBestAgent_def)
qed

lemma retry_evaluated:
  "retryView (workerFailed (snd (assignTask initialMaster (landingPage\<lparr>mt_retries := Some 0\<rparr>)))
                frontendAgent (landingPage\<lparr>mt_retries := Some 0\<rparr>))
     = Some ([], [(''frontend'', ''working'', Some (Some [''frontend''])),
                  (''design'', ''idle'', None)])
   \<and> retryView (workerFailed (snd (assignTask initialMaster landingPage)) frontendAgent landingPage)
     = Some ([], [(''frontend'', ''idle'', None), (''design'', ''idle'', None)])"
  by code_simp

text \<open>
  Claim C3, on the code. The agent that the selector returns for the retry candidate of
  a task is the agent it returns for the task itself: \<^verbatim>\<open>excludeAgents\<close> is written and
  never read. So the task that failed on the agent \<^verbatim>\<open>frontend\<close> with \<^verbatim>\<open>retries\<close> 0
  is put back on the queue with \<^verbatim>\<open>excludeAgents\<close> \<^verbatim>\<open>['frontend']\<close>, and the queue
  hands it to the agent \<^verbatim>\<open>frontend\<close> again. Without a \<^verbatim>\<open>retries\<close> field, as the
  command line submits it, the task is not put back at all.
\<close>

theorem retry_ignores_excluded_agent:
  "master_selectBestAgent registry (retryCandidate agent task)
     = master_selectBestAgent registry task
   \<and> retryView (workerFailed (snd (assignTask initialMaster (landingPage\<lparr>mt_retries := Some 0\<rparr>)))
                frontendAgent (landingPage\<lparr>mt_retries := Some 0\<rparr>))
     = Some ([], [(''frontend'', ''working'', Some (Some [''frontend''])),
                  (''design'', ''idle'', None)])
   \<and> retryView (workerFailed (snd (assignTask initialMaster landingPage)) frontendAgent landingPage)
     = Some ([], [(''frontend'', ''idle'', None), (''design'', ''idle'', None)])"
proof -
  have "retryCandidate agent task
          = task\<lparr>mt_excludeAgents := mt_excludeAgents (retryCandidate agent task),
                 mt_retries := mt_retries (retryCandidate agent task)\<rparr>"
    by (simp add: retryCandidate_def)
  then have "master_selectBestAgent registry (retryCandidate agent task)
               = master_selectBestAgent registry task"
    using master_selectBestAgent_ignores_exclusions by metis
  with retry_evaluated show ?thesis by blast
qed

section \<open>Performance counters of BaseAgent\<close>















text \<open>
  One success of 100 ms and one failure of 300 ms: two attempts, one successful and one
  failed, and without rounding the mean is 200.
\<close>

lemma sample_run:
  "b_performance (executeTask (\<lambda>x. x)
                    (executeTask (\<lambda>x. x) (newBaseAgent 0 (Some ''a'') None None None)
                       sampleTask ''task_1'' (Inr ''ok'') 100)
                    sampleTask ''task_2'' (Inl ''boom'') 300)
     = \<lparr>b_tasksCompleted = 2, b_tasksSuccessful = 1, b_tasksFailed = 1, b_avgExecutionTime = 200\<rparr>"
  by (simp add: executeTask_def executeTask_begin_def executeTask_settle_def newBaseAgent_def
        updatePerformance_def sampleTask_def mapSet_def mapDelete_def Let_def)


section \<open>The dispatcher\<close>

lemma selectBestAgent_Some:
  "\<exists>a st2. selectBestAgent st task = (Some a, st2)
           \<and> taskIdCounter st2 = taskIdCounter st \<and> events st2 = events st"
proof -
  from selectBestAgent_cases [of task st] show ?thesis
  proof (elim disjE exE conjE)
    fix cfg
    assume "selectBestAgent st task
              = (Some (fst (createDynamicAgent st cfg)), snd (createDynamicAgent st cfg))"
    then show ?thesis by (simp add: createDynamicAgent_state)
  next
    fix first others
    assume "selectBestAgent st task = (Some (foldl fasterAgent first others), st)"
    then show ?thesis by simp
  qed
qed

lemma startTask_result:
  "\<exists>agent st'. startTask st task
       = (Awaiting (taskIdAt (taskIdCounter st)) (startedTask (taskIdAt (taskIdCounter st)) task)
            agent, st')
     \<and> events st' = events st @ [Started (taskIdAt (taskIdCounter st))]
     \<and> taskIdCounter st' = taskIdCounter st + 1"
proof -
  let ?id = "''task_'' @ showNat (taskIdCounter st)"
  let ?t1 = "task\<lparr>t_id := Some ?id, t_status := ''executing''\<rparr>"
  let ?st1 = "st\<lparr>taskIdCounter := taskIdCounter st + 1, events := events st @ [Started ?id]\<rparr>"
  from selectBestAgent_Some [of ?st1 ?t1] obtain a st2
    where sel: "selectBestAgent ?st1 ?t1 = (Some a, st2)"
      and c: "taskIdCounter st2 = taskIdCounter ?st1" and ev: "events st2 = events ?st1"
    by blast
  have "startTask st task
          = (Awaiting ?id ?t1 (a\<lparr>a_tasks := a_tasks a @ [?id], a_status := ''busy''\<rparr>),
             st2\<lparr>agents := updateAgent (a_id a)
                     (\<lambda>a. a\<lparr>a_tasks := a_tasks a @ [?id], a_status := ''busy''\<rparr>) (agents st2)\<rparr>)"
    unfolding startTask_def Let_def sel by simp
  moreover have "events (st2\<lparr>agents := updateAgent (a_id a)
                     (\<lambda>a. a\<lparr>a_tasks := a_tasks a @ [?id], a_status := ''busy''\<rparr>) (agents st2)\<rparr>)
                   = events st @ [Started ?id]"
    by (simp add: ev)
  moreover have "taskIdCounter (st2\<lparr>agents := updateAgent (a_id a)
                     (\<lambda>a. a\<lparr>a_tasks := a_tasks a @ [?id], a_status := ''busy''\<rparr>) (agents st2)\<rparr>)
                   = taskIdCounter st + 1"
    by (simp add: c)
  ultimately show ?thesis
    unfolding taskIdAt_def startedTask_def by blast
qed

lemma finishTask_Awaiting:
  "\<exists>agent' st'. finishTask e st (Awaiting taskId task agent) = (taskOutcome e task agent', st')
     \<and> events st' = events st @ [Settled taskId]
     \<and> taskIdCounter st' = taskIdCounter st"
proof (cases "payload e task (currentAgent st agent)")
  case (Inl message)
  then have "finishTask e st (Awaiting taskId task agent)
               = (taskOutcome e task (currentAgent st agent),
                  st\<lparr>events := events st @ [Settled taskId]\<rparr>)"
    by (simp add: finishTask_def taskOutcome_def)
  then show ?thesis by force
next
  case (Inr result)
  then have "finishTask e st (Awaiting taskId task agent)
               = (taskOutcome e task (currentAgent st agent),
                  st\<lparr>agents := updateAgent (a_id agent)
                          (recordCompletion (rounded e) (elapsed e task))
                          (agents st),
                     events := events st @ [Settled taskId]\<rparr>)"
    by (simp add: finishTask_def taskOutcome_def)
  then show ?thesis by force
qed

lemma startAll_result:
  "\<exists>ps st1. startAll st batch = (ps, st1)
     \<and> list_all2 startedAs batch ps
     \<and> map pendingId ps = map taskIdAt [taskIdCounter st ..< taskIdCounter st + length batch]
     \<and> events st1 = events st @ map Started (map pendingId ps)
     \<and> taskIdCounter st1 = taskIdCounter st + length batch"
proof (induction batch arbitrary: st)
  case Nil
  show ?case by simp
next
  case (Cons task rest)
  from startTask_result [of st task] obtain agent sta
    where s: "startTask st task
       = (Awaiting (taskIdAt (taskIdCounter st)) (startedTask (taskIdAt (taskIdCounter st)) task)
            agent, sta)"
      and ev: "events sta = events st @ [Started (taskIdAt (taskIdCounter st))]"
      and c: "taskIdCounter sta = taskIdCounter st + 1"
    by blast
  from Cons.IH [of sta] obtain ps st1
    where r: "startAll sta rest = (ps, st1)"
      and rel: "list_all2 startedAs rest ps"
      and ids: "map pendingId ps = map taskIdAt [taskIdCounter sta ..< taskIdCounter sta + length rest]"
      and ev1: "events st1 = events sta @ map Started (map pendingId ps)"
      and c1: "taskIdCounter st1 = taskIdCounter sta + length rest"
    by blast
  let ?p = "Awaiting (taskIdAt (taskIdCounter st)) (startedTask (taskIdAt (taskIdCounter st)) task) agent"
  have 1: "startAll st (task # rest) = (?p # ps, st1)" by (simp add: s r)
  have 2: "list_all2 startedAs (task # rest) (?p # ps)"
    using rel by (auto simp: startedAs_def)
  have "[taskIdCounter st ..< taskIdCounter st + length (task # rest)]
          = taskIdCounter st # [Suc (taskIdCounter st) ..< taskIdCounter st + length (task # rest)]"
    by (rule upt_conv_Cons) simp
  then have 3: "map pendingId (?p # ps)
                  = map taskIdAt [taskIdCounter st ..< taskIdCounter st + length (task # rest)]"
    using ids c by simp
  have 4: "events st1 = events st @ map Started (map pendingId (?p # ps))"
    by (simp add: ev1 ev)
  have 5: "taskIdCounter st1 = taskIdCounter st + length (task # rest)"
    by (simp add: c1 c)
  from 1 2 3 4 5 show ?case by blast
qed

lemma finishAll_result:
  assumes "\<forall>ip\<in>set ips. \<exists>taskId task agent. snd ip = Awaiting taskId task agent"
  shows "\<exists>outs st'. finishAll e st ips = (outs, st')
     \<and> list_all2 (settledAs e) ips outs
     \<and> events st' = events st @ map Settled (map (\<lambda>ip. pendingId (snd ip)) ips)
     \<and> taskIdCounter st' = taskIdCounter st"
  using assms
proof (induction ips arbitrary: st)
  case Nil
  show ?case by simp
next
  case (Cons ip rest)
  obtain i p where ip: "ip = (i, p)" by (cases ip)
  from Cons.prems ip obtain taskId task agent where p: "p = Awaiting taskId task agent"
    by auto
  from finishTask_Awaiting [of e st taskId task agent] obtain agent' sta
    where f: "finishTask e st (Awaiting taskId task agent) = (taskOutcome e task agent', sta)"
      and ev: "events sta = events st @ [Settled taskId]"
      and c: "taskIdCounter sta = taskIdCounter st"
    by blast
  from Cons.prems have "\<forall>ip\<in>set rest. \<exists>taskId task agent. snd ip = Awaiting taskId task agent"
    by simp
  from Cons.IH [OF this, of sta] obtain outs st'
    where r: "finishAll e sta rest = (outs, st')"
      and rel: "list_all2 (settledAs e) rest outs"
      and ev': "events st' = events sta @ map Settled (map (\<lambda>ip. pendingId (snd ip)) rest)"
      and c': "taskIdCounter st' = taskIdCounter sta"
    by blast
  have 1: "finishAll e st (ip # rest) = ((i, taskOutcome e task agent') # outs, st')"
    by (simp add: ip p f r)
  have "settledAs e ip (i, taskOutcome e task agent')"
    unfolding settledAs_def ip p by auto
  with rel have 2: "list_all2 (settledAs e) (ip # rest) ((i, taskOutcome e task agent') # outs)"
    by simp
  have 3: "events st' = events st @ map Settled (map (\<lambda>ip. pendingId (snd ip)) (ip # rest))"
    by (simp add: ev' ev ip p)
  have 4: "taskIdCounter st' = taskIdCounter st" by (simp add: c' c)
  from 1 2 3 4 show ?case by blast
qed

lemma set_settleOrder: "set (settleOrder e ps) = set (enumerate 0 ps)"
  by (simp add: settleOrder_def)

lemma mset_settleOrder: "mset (settleOrder e ps) = mset (enumerate 0 ps)"
  by (simp add: settleOrder_def)

lemma mset_map_settleOrder:
  "mset (map f (settleOrder e ps)) = mset (map f (enumerate 0 ps))"
proof -
  have "mset (map f (settleOrder e ps)) = image_mset f (mset (settleOrder e ps))"
    by (rule mset_map)
  also have "\<dots> = image_mset f (mset (enumerate 0 ps))" by (simp only: mset_settleOrder)
  also have "\<dots> = mset (map f (enumerate 0 ps))" by (rule mset_map [symmetric])
  finally show ?thesis .
qed

lemma settleOrder_ids:
  "mset (map (\<lambda>ip. pendingId (snd ip)) (settleOrder e ps)) = mset (map pendingId ps)"
proof -
  have "map (\<lambda>ip. pendingId (snd ip)) (enumerate 0 ps) = map pendingId (map snd (enumerate 0 ps))"
    by (simp only: map_map comp_def)
  also have "\<dots> = map pendingId ps" by (simp only: map_snd_enumerate)
  finally show ?thesis by (simp only: mset_map_settleOrder)
qed

lemma settleOrder_indices: "mset (map fst (settleOrder e ps)) = mset [0..<length ps]"
proof -
  have "map fst (enumerate 0 ps) = [0..<length ps]" by (simp add: map_fst_enumerate)
  then show ?thesis by (simp only: mset_map_settleOrder)
qed

lemma sort_key_fst_indices:
  assumes "mset (map fst xs) = mset [0..<n]"
  shows "map fst (sort_key fst xs) = [0..<n]"
proof -
  have "sorted (map fst (sort_key fst xs))" by (rule sorted_sort_key)
  moreover have "mset (map fst (sort_key fst xs)) = mset [0..<n]"
    using assms by simp
  ultimately have "sort [0..<n] = map fst (sort_key fst xs)"
    by (intro properties_for_sort) simp_all
  then show ?thesis by (simp add: sorted_sort_id)
qed

lemma runBatch_result:
  "\<exists>results st2 settled. runBatch e st batch = (results, st2)
     \<and> length results = length batch
     \<and> (\<forall>k<length batch. outcomeOf e (batch ! k) (results ! k))
     \<and> events st2 = events st
           @ map Started (map taskIdAt [taskIdCounter st ..< taskIdCounter st + length batch])
           @ map Settled settled
     \<and> mset settled = mset (map taskIdAt [taskIdCounter st ..< taskIdCounter st + length batch])
     \<and> taskIdCounter st2 = taskIdCounter st + length batch"
proof -
  let ?ids = "map taskIdAt [taskIdCounter st ..< taskIdCounter st + length batch]"
  from startAll_result [of st batch] obtain ps st1
    where sa: "startAll st batch = (ps, st1)"
      and rel: "list_all2 startedAs batch ps"
      and ids: "map pendingId ps = ?ids"
      and ev1: "events st1 = events st @ map Started (map pendingId ps)"
      and c1: "taskIdCounter st1 = taskIdCounter st + length batch"
    by blast
  from rel have len: "length ps = length batch" by (simp add: list_all2_lengthD)
  let ?ips = "settleOrder e ps"
  have member: "\<And>ip. ip \<in> set ?ips \<Longrightarrow> fst ip < length batch \<and> snd ip = ps ! fst ip
                  \<and> startedAs (batch ! fst ip) (snd ip)"
  proof -
    fix ip assume "ip \<in> set ?ips"
    then have "ip \<in> set (enumerate 0 ps)" by (simp only: set_settleOrder)
    then have a: "fst ip < length ps" and b: "ps ! fst ip = snd ip"
      by (simp_all add: in_set_enumerate_eq)
    from rel a have "startedAs (batch ! fst ip) (ps ! fst ip)" by (simp add: list_all2_nthD2)
    with a b len show "fst ip < length batch \<and> snd ip = ps ! fst ip
                  \<and> startedAs (batch ! fst ip) (snd ip)"
      by simp
  qed
  have "\<forall>ip\<in>set ?ips. \<exists>taskId task agent. snd ip = Awaiting taskId task agent"
    using member unfolding startedAs_def by blast
  from finishAll_result [OF this, of e st1] obtain finished st2
    where fa: "finishAll e st1 ?ips = (finished, st2)"
      and frel: "list_all2 (settledAs e) ?ips finished"
      and ev2: "events st2 = events st1 @ map Settled (map (\<lambda>ip. pendingId (snd ip)) ?ips)"
      and c2: "taskIdCounter st2 = taskIdCounter st1"
    by blast
  let ?sorted = "sort_key fst finished"
  let ?results = "map snd ?sorted"
  have rb: "runBatch e st batch = (?results, st2)" by (simp add: runBatch_def sa fa)
  have fsts: "map fst finished = map fst ?ips"
    using frel by (induction rule: list_all2_induct) (simp_all add: settledAs_def)
  have own: "\<And>io. io \<in> set finished \<Longrightarrow> fst io < length batch
                 \<and> outcomeOf e (batch ! fst io) (snd io)"
  proof -
    fix io assume "io \<in> set finished"
    then obtain i where i: "i < length finished" and io: "io = finished ! i"
      by (auto simp: in_set_conv_nth)
    from frel have "length ?ips = length finished" by (rule list_all2_lengthD)
    with i have ip: "?ips ! i \<in> set ?ips" by simp
    from frel i have "settledAs e (?ips ! i) (finished ! i)" by (rule list_all2_nthD2)
    with ip io obtain ip where ip: "ip \<in> set ?ips" and s: "settledAs e ip io" by blast
    from member [OF ip] have lt: "fst ip < length batch"
      and st: "startedAs (batch ! fst ip) (snd ip)" by blast+
    from s obtain taskId task agent agent'
      where eq: "fst io = fst ip" and p: "snd ip = Awaiting taskId task agent"
        and o: "snd io = taskOutcome e task agent'"
      unfolding settledAs_def by blast
    from st p have "task = startedTask taskId (batch ! fst ip)"
      unfolding startedAs_def by auto
    with o have "outcomeOf e (batch ! fst ip) (snd io)" unfolding outcomeOf_def by blast
    with lt eq show "fst io < length batch \<and> outcomeOf e (batch ! fst io) (snd io)" by simp
  qed
  have "mset (map fst finished) = mset [0..<length batch]"
    unfolding fsts using settleOrder_indices [of e ps] len by simp
  then have idx: "map fst ?sorted = [0..<length batch]" by (rule sort_key_fst_indices)
  then have slen: "length ?sorted = length batch"
    by (metis length_map length_upt minus_nat.diff_0)
  have 1: "length ?results = length batch" using slen by simp
  have 2: "\<forall>k<length batch. outcomeOf e (batch ! k) (?results ! k)"
  proof (intro allI impI)
    fix k assume k: "k < length batch"
    with slen have "k < length ?sorted" by (simp only:)
    then have "?sorted ! k \<in> set ?sorted" by (rule nth_mem)
    then have mem: "?sorted ! k \<in> set finished" by simp
    from k slen have "fst (?sorted ! k) = map fst ?sorted ! k" by simp
    also have "\<dots> = k" using k by (simp only: idx) simp
    finally have fk: "fst (?sorted ! k) = k" .
    from own [OF mem] fk have "outcomeOf e (batch ! k) (snd (?sorted ! k))" by simp
    with k slen show "outcomeOf e (batch ! k) (?results ! k)" by simp
  qed
  let ?settled = "map (\<lambda>ip. pendingId (snd ip)) ?ips"
  have 3: "events st2 = events st @ map Started ?ids @ map Settled ?settled"
    by (simp add: ev2 ev1 ids)
  have 4: "mset ?settled = mset ?ids" using settleOrder_ids [of e ps] ids by simp
  have 5: "taskIdCounter st2 = taskIdCounter st + length batch" by (simp add: c2 c1)
  from rb 1 2 3 4 5 show ?thesis by blast
qed

lemma batchLoop_result:
  assumes m: "0 < m"
  shows "\<exists>res st' blocks. batchLoop e m tasks i results st = Some (results @ res, st')
     \<and> length res = length tasks - i
     \<and> (\<forall>k<length tasks - i. outcomeOf e (tasks ! (i + k)) (res ! k))
     \<and> events st' = events st @ concat (map blockEvents blocks)
     \<and> (\<forall>b\<in>set blocks. mset (snd b) = mset (fst b) \<and> fst b \<noteq> [] \<and> length (fst b) \<le> m)
     \<and> concat (map fst blocks)
         = map taskIdAt [taskIdCounter st ..< taskIdCounter st + (length tasks - i)]"
proof (induction "length tasks - i" arbitrary: i results st rule: less_induct)
  case less
  show ?case
  proof (cases "i < length tasks")
    case False
    then have "batchLoop e m tasks i results st = Some (results @ [], st)"
      by (subst batchLoop.simps) simp
    moreover have "events st = events st @ concat (map blockEvents [])" by simp
    moreover from False have "length tasks - i = 0" by simp
    ultimately show ?thesis by (intro exI [of _ "[]"] exI [of _ st]) simp
  next
    case True
    let ?batch = "take m (drop i tasks)"
    let ?n = "length ?batch"
    let ?c = "taskIdCounter st"
    let ?ids = "map taskIdAt [?c ..< ?c + ?n]"
    from True m have n: "?n = min m (length tasks - i)" and npos: "0 < ?n" by simp_all
    from runBatch_result [of e st ?batch] obtain br st2 settled
      where rb: "runBatch e st ?batch = (br, st2)"
        and lbr: "length br = ?n"
        and obr: "\<forall>k<?n. outcomeOf e (?batch ! k) (br ! k)"
        and ev2: "events st2 = events st @ map Started ?ids @ map Settled settled"
        and ms: "mset settled = mset ?ids"
        and c2: "taskIdCounter st2 = ?c + ?n"
      by blast
    from True m have "length tasks - (i + m) < length tasks - i" by simp
    from less [OF this, of "results @ br" st2] obtain res' st' blocks'
      where rec: "batchLoop e m tasks (i + m) (results @ br) st2 = Some ((results @ br) @ res', st')"
        and lres: "length res' = length tasks - (i + m)"
        and ores: "\<forall>k<length tasks - (i + m). outcomeOf e (tasks ! (i + m + k)) (res' ! k)"
        and ev': "events st' = events st2 @ concat (map blockEvents blocks')"
        and bl: "\<forall>b\<in>set blocks'. mset (snd b) = mset (fst b) \<and> fst b \<noteq> [] \<and> length (fst b) \<le> m"
        and ids': "concat (map fst blocks')
                    = map taskIdAt [taskIdCounter st2 ..< taskIdCounter st2 + (length tasks - (i + m))]"
      by blast
    have total: "?n + (length tasks - (i + m)) = length tasks - i" using n by simp
    have 1: "batchLoop e m tasks i results st = Some (results @ (br @ res'), st')"
      using True rb rec by (subst batchLoop.simps) simp
    have 2: "length (br @ res') = length tasks - i" using lbr lres total by simp
    have 3: "\<forall>k<length tasks - i. outcomeOf e (tasks ! (i + k)) ((br @ res') ! k)"
    proof (intro allI impI)
      fix k assume k: "k < length tasks - i"
      show "outcomeOf e (tasks ! (i + k)) ((br @ res') ! k)"
      proof (cases "k < ?n")
        case True
        with obr have "outcomeOf e (?batch ! k) (br ! k)" by blast
        moreover from True k have "?batch ! k = tasks ! (i + k)" by simp
        moreover from True lbr have "(br @ res') ! k = br ! k" by (simp add: nth_append)
        ultimately show ?thesis by simp
      next
        case False
        with k n have nm: "?n = m" by simp
        from False k total have k': "k - ?n < length tasks - (i + m)" by simp
        with ores have "outcomeOf e (tasks ! (i + m + (k - ?n))) (res' ! (k - ?n))" by blast
        moreover have "i + m + (k - ?n) = i + k"
        proof -
          from False have "?n \<le> k" by (simp only: not_less)
          then have "m \<le> k" by (simp only: nm)
          then have "i + m + (k - m) = i + k" by simp
          then show ?thesis by (simp only: nm)
        qed
        moreover have "(br @ res') ! k = res' ! (k - ?n)"
        proof -
          from False have "\<not> k < length br" unfolding lbr .
          then have "(br @ res') ! k = res' ! (k - length br)" by (simp add: nth_append)
          then show ?thesis by (simp only: lbr)
        qed
        ultimately show ?thesis by simp
      qed
    qed
    have 4: "events st' = events st @ concat (map blockEvents ((?ids, settled) # blocks'))"
      by (simp add: ev' ev2 blockEvents_def)
    have "length ?ids \<le> m" by simp
    moreover from npos have "?ids \<noteq> []" by simp
    ultimately
    have 5: "\<forall>b\<in>set ((?ids, settled) # blocks').
               mset (snd b) = mset (fst b) \<and> fst b \<noteq> [] \<and> length (fst b) \<le> m"
      using bl ms by simp
    have "[?c ..< ?c + ?n] @ [?c + ?n ..< ?c + ?n + (length tasks - (i + m))]
            = [?c ..< ?c + ?n + (length tasks - (i + m))]"
      by (simp add: upt_add_eq_append [symmetric])
    then have "?ids @ map taskIdAt [?c + ?n ..< ?c + ?n + (length tasks - (i + m))]
            = map taskIdAt [?c ..< ?c + ?n + (length tasks - (i + m))]"
      by (simp only: map_append [symmetric])
    then have 6: "concat (map fst ((?ids, settled) # blocks'))
                    = map taskIdAt [?c ..< ?c + (length tasks - i)]"
      using ids' c2 total by (simp add: add.assoc)
    from 1 2 3 4 5 6 show ?thesis by blast
  qed
qed

lemma inFlight_append: "inFlight (xs @ ys) = inFlight xs + inFlight ys"
  by (induction xs rule: inFlight.induct) simp_all

lemma inFlight_Started: "inFlight (map Started ids) = int (length ids)"
  by (induction ids) simp_all

lemma inFlight_Settled: "inFlight (map Settled ids) = - int (length ids)"
  by (induction ids) simp_all

lemma inFlight_block_prefix:
  assumes "length (fst b) \<le> m"
  shows "inFlight (take k (blockEvents b)) \<le> int m"
proof -
  have "take k (blockEvents b)
          = map Started (take k (fst b)) @ map Settled (take (k - length (fst b)) (snd b))"
    by (simp add: blockEvents_def take_map)
  then have "inFlight (take k (blockEvents b))
          = int (length (take k (fst b))) - int (length (take (k - length (fst b)) (snd b)))"
    by (simp only: inFlight_append inFlight_Started inFlight_Settled)
  also have "\<dots> \<le> int (length (take k (fst b)))" by simp
  also have "\<dots> \<le> int (length (fst b))" by simp
  also have "\<dots> \<le> int m" using assms by simp
  finally show ?thesis .
qed

lemma inFlight_block: "length (snd b) = length (fst b) \<Longrightarrow> inFlight (blockEvents b) = 0"
  by (simp add: blockEvents_def inFlight_append inFlight_Started inFlight_Settled)

lemma inFlight_blocks_prefix:
  assumes "\<forall>b\<in>set blocks. length (snd b) = length (fst b) \<and> length (fst b) \<le> m"
  shows "inFlight (take k (concat (map blockEvents blocks))) \<le> int m"
  using assms
proof (induction blocks arbitrary: k)
  case Nil
  show ?case by simp
next
  case (Cons b blocks)
  from Cons.prems have b: "length (snd b) = length (fst b)" "length (fst b) \<le> m"
    and rest: "\<forall>b\<in>set blocks. length (snd b) = length (fst b) \<and> length (fst b) \<le> m"
    by simp_all
  have split: "take k (concat (map blockEvents (b # blocks)))
                 = take k (blockEvents b)
                   @ take (k - length (blockEvents b)) (concat (map blockEvents blocks))"
    by (simp only: list.map concat.simps take_append)
  show ?case
  proof (cases "k \<le> length (blockEvents b)")
    case True
    then have "k - length (blockEvents b) = 0" by simp
    then have "take k (concat (map blockEvents (b # blocks))) = take k (blockEvents b)"
      unfolding split by (simp only: take_0 append_Nil2)
    with inFlight_block_prefix [OF b(2), of k] show ?thesis by (simp only:)
  next
    case False
    then have "take k (blockEvents b) = blockEvents b" by simp
    then have "inFlight (take k (concat (map blockEvents (b # blocks))))
                 = inFlight (take (k - length (blockEvents b)) (concat (map blockEvents blocks)))"
      unfolding split by (simp only: inFlight_append inFlight_block [OF b(1)])
    with Cons.IH [OF rest, of "k - length (blockEvents b)"] show ?thesis by (simp only:)
  qed
qed

text \<open>
  Claim C6. With \<^verbatim>\<open>max_parallel_tasks\<close> at least 1, \<^verbatim>\<open>executeParallelTasks\<close> returns,
  and its events are those of a sequence of batches: the batches hold the tasks in their
  order (the task ids follow the counter), each batch is non-empty and has at most
  \<^verbatim>\<open>max_parallel_tasks\<close> tasks, and all the tasks of a batch settle before the first
  task of the next batch is started. Hence at every moment at most
  \<^verbatim>\<open>max_parallel_tasks\<close> tasks are started and not settled.
\<close>

theorem batches_bound_concurrency:
  assumes "0 < max_parallel_tasks st"
  shows "\<exists>results st' blocks. executeParallelTasks e st tasks = Some (results, st')
     \<and> events st' = events st @ concat (map blockEvents blocks)
     \<and> concat (map fst blocks)
         = map taskIdAt [taskIdCounter st ..< taskIdCounter st + length tasks]
     \<and> (\<forall>b\<in>set blocks. fst b \<noteq> [] \<and> length (fst b) \<le> max_parallel_tasks st
                          \<and> mset (snd b) = mset (fst b))
     \<and> (\<forall>k. inFlight (take k (concat (map blockEvents blocks))) \<le> int (max_parallel_tasks st))"
proof -
  from batchLoop_result [OF assms, of e tasks 0 "[]" st] obtain res st' blocks
    where r: "batchLoop e (max_parallel_tasks st) tasks 0 [] st = Some ([] @ res, st')"
      and ev: "events st' = events st @ concat (map blockEvents blocks)"
      and bl: "\<forall>b\<in>set blocks. mset (snd b) = mset (fst b) \<and> fst b \<noteq> []
                 \<and> length (fst b) \<le> max_parallel_tasks st"
      and ids: "concat (map fst blocks)
                  = map taskIdAt [taskIdCounter st ..< taskIdCounter st + (length tasks - 0)]"
    by blast
  have 1: "executeParallelTasks e st tasks = Some (res, st')"
    using r by (simp add: executeParallelTasks_def)
  have 3: "concat (map fst blocks)
             = map taskIdAt [taskIdCounter st ..< taskIdCounter st + length tasks]"
    using ids by simp
  have 4: "\<forall>b\<in>set blocks. fst b \<noteq> [] \<and> length (fst b) \<le> max_parallel_tasks st
                          \<and> mset (snd b) = mset (fst b)"
    using bl by blast
  have "\<forall>b\<in>set blocks. length (snd b) = length (fst b) \<and> length (fst b) \<le> max_parallel_tasks st"
  proof
    fix b assume "b \<in> set blocks"
    with bl have "mset (snd b) = mset (fst b)" and le: "length (fst b) \<le> max_parallel_tasks st"
      by blast+
    then have "length (snd b) = length (fst b)" by (metis size_mset)
    with le show "length (snd b) = length (fst b) \<and> length (fst b) \<le> max_parallel_tasks st"
      by simp
  qed
  then have 5: "\<forall>k. inFlight (take k (concat (map blockEvents blocks)))
                      \<le> int (max_parallel_tasks st)"
    by (intro allI inFlight_blocks_prefix)
  from 1 ev 3 4 5 show ?thesis by blast
qed

text \<open>
  Claim C7. With \<^verbatim>\<open>max_parallel_tasks\<close> at least 1, \<^verbatim>\<open>executeParallelTasks\<close> returns
  one outcome for each task of the input, in the order of the input, and the outcome at
  a position is the outcome of the task at this position: fulfilled or rejected as the
  payload of this very task decides, whatever happens to the other tasks.
\<close>

theorem one_outcome_per_task:
  assumes "0 < max_parallel_tasks st"
  shows "\<exists>results st'. executeParallelTasks e st tasks = Some (results, st')
     \<and> length results = length tasks
     \<and> (\<forall>k<length tasks. outcomeOf e (tasks ! k) (results ! k))"
proof -
  from batchLoop_result [OF assms, of e tasks 0 "[]" st] obtain res st'
    where r: "batchLoop e (max_parallel_tasks st) tasks 0 [] st = Some ([] @ res, st')"
      and len: "length res = length tasks - 0"
      and out: "\<forall>k<length tasks - 0. outcomeOf e (tasks ! (0 + k)) (res ! k)"
    by blast
  have "executeParallelTasks e st tasks = Some (res, st')"
    using r by (simp add: executeParallelTasks_def)
  moreover have "length res = length tasks" using len by simp
  moreover have "\<forall>k<length tasks. outcomeOf e (tasks ! k) (res ! k)" using out by simp
  ultimately show ?thesis by blast
qed

lemma demo_run:
  "map_option (\<lambda>r. (map isFulfilled (fst r), events (snd r)))
     (executeParallelTasks demoEnv (newController\<lparr>max_parallel_tasks := 2\<rparr>) demoTasks)
   = Some ([True, False, True],
           [Started ''task_1'', Started ''task_2'', Settled ''task_2'', Settled ''task_1'',
            Started ''task_3'', Settled ''task_3''])"
  by code_simp

theorem batches_bound_concurrency_witness:
  "\<exists>results st' blocks.
      executeParallelTasks demoEnv (newController\<lparr>max_parallel_tasks := 2\<rparr>) demoTasks
        = Some (results, st')
      \<and> events st' = concat (map blockEvents blocks)
      \<and> inFlight (take 2 (concat (map blockEvents blocks))) \<le> 2"
proof -
  have "0 < max_parallel_tasks (newController\<lparr>max_parallel_tasks := 2\<rparr>)" by simp
  from batches_bound_concurrency [OF this, of demoEnv demoTasks]
  show ?thesis by (fastforce simp: newController_def)
qed

theorem one_outcome_per_task_witness:
  "\<exists>results st'.
      executeParallelTasks demoEnv (newController\<lparr>max_parallel_tasks := 2\<rparr>) demoTasks
        = Some (results, st')
      \<and> length results = 3
      \<and> outcomeOf demoEnv (createTask ''Format Code'' [''formatting'']) (results ! 1)"
proof -
  have "0 < max_parallel_tasks (newController\<lparr>max_parallel_tasks := 2\<rparr>)" by simp
  from one_outcome_per_task [OF this, of demoEnv demoTasks]
  show ?thesis by (fastforce simp: demoTasks_def)
qed

end
